theory Spec2Isabelle
  imports Main "HOL-Library.Word" "HOL-Library.Multiset"
begin

unbundle bit_operations_syntax

section \<open>Content-extension compiler: ContentExtensionCompiler.cpp\<close>

text \<open>
  A shallow embedding of the action serializer (\<open>serializeSelector\<close>,
  \<open>resolvePendingDisplayNoneActions\<close>, \<open>serializeActions\<close>), of
  \<open>addUniversalActionsToDFA\<close> and of the orchestrator \<open>compileRuleList\<close>.
  The rule, trigger and action types, the automata and the sink are declared in headers
  outside the file; they are modelled here by the fields and operations the file uses.
\<close>

subsection \<open>Data model\<close>

type_synonym SerializedActionByte = "8 word"
type_synonym UChar = "16 word"

text \<open>
  A WTF string: a sequence of 16-bit code units and the flag \<open>is8Bit\<close> of its
  representation. \<open>length()\<close> counts code units.
\<close>

record WTFString =
  is8Bit :: bool
  characters :: "UChar list"

datatype ActionType =
    BlockLoad
  | BlockCookies
  | CSSDisplayNoneSelector
  | CSSDisplayNoneStyleSheet
  | IgnorePreviousRules
  | MakeHTTPS
  | InvalidAction

datatype ConditionType = ConditionNone | IfDomain | UnlessDomain

type_synonym ResourceFlags = "32 word"

record Trigger =
  urlFilter :: WTFString
  urlFilterIsCaseSensitive :: bool
  flags :: ResourceFlags
  conditions :: "WTFString list"
  conditionType :: ConditionType

record Action =
  actionType :: ActionType
  stringArgument :: WTFString

record ContentExtensionRule =
  trigger :: Trigger
  action :: Action

text \<open>
  Every way the process can die: \<open>RELEASE_ASSERT_NOT_REACHED\<close> in the switch of
  \<open>serializeActions\<close>, the overflow handler of \<open>Vector::operator[]\<close>, and the
  \<open>RELEASE_ASSERT_WITH_MESSAGE\<close> of \<open>addUniversalActionsToDFA\<close>.
\<close>

datatype Fatal = NotReached | VectorIndexOutOfRange | TooManyUniversalActions

text \<open>
  \<open>std::numeric_limits<unsigned>::max()\<close>. Sizes and offsets of a \<open>Vector\<close> are
  kept as natural numbers: a \<open>Vector\<close> cannot grow beyond \<open>UINT_MAX\<close> elements, so
  no offset wraps around.
\<close>

definition UINT_MAX :: nat where
  "UINT_MAX = 4294967295"

subsection \<open>serializeSelector\<close>

text \<open>The four bytes of an \<open>unsigned\<close> stored in place, least significant byte first.\<close>

definition unsignedBytes :: "32 word \<Rightarrow> SerializedActionByte list" where
  "unsignedBytes w = [ucast w, ucast (drop_bit 8 w), ucast (drop_bit 16 w), ucast (drop_bit 24 w)]"

text \<open>The two bytes of a \<open>UChar\<close> stored in place.\<close>

definition ucharBytes :: "UChar \<Rightarrow> SerializedActionByte list" where
  "ucharBytes c = [ucast c, ucast (drop_bit 8 c)]"

text \<open>
  \<open>typeByte\<close> stands for \<open>static_cast<SerializedActionByte>(actionType)\<close>: the values of
  the enumeration are declared outside the file.
\<close>

definition serializeSelector ::
  "(ActionType \<Rightarrow> SerializedActionByte) \<Rightarrow> SerializedActionByte list \<Rightarrow> WTFString
    \<Rightarrow> SerializedActionByte list" where
  "serializeSelector typeByte actions selector =
     (let actions1 = actions @ [typeByte CSSDisplayNoneSelector];
          selectorLength = (of_nat (length (characters selector)) :: 32 word);
          actions2 = actions1 @ unsignedBytes selectorLength;
          wideCharacters = (\<not> is8Bit selector);
          actions3 = actions2 @ [if wideCharacters then 1 else 0]
      in if wideCharacters
         then actions3 @ concat (map ucharBytes (characters selector))
         else actions3 @ map ucast (characters selector))"

subsection \<open>resolvePendingDisplayNoneActions\<close>

record PendingDisplayNoneActions =
  selectors :: "WTFString list"
  clientLocations :: "nat list"

text \<open>
  The hash map from triggers to pending actions, as the list of its slots in the order
  the keys were added. Two keys are the same when the triggers are identical.
\<close>

type_synonym PendingDisplayNoneActionsMap = "(Trigger \<times> PendingDisplayNoneActions) list"

text \<open>
  Modelled from the spec: \<open>StringBuilder\<close> (declared outside the file). A builder
  starts empty and narrow; appending a character keeps its width; appending an empty
  string changes nothing; appending a wide string makes the result wide.
\<close>

definition emptyBuilder :: WTFString where
  "emptyBuilder = \<lparr>is8Bit = True, characters = []\<rparr>"

definition appendCharacter :: "WTFString \<Rightarrow> UChar \<Rightarrow> WTFString" where
  "appendCharacter b c = b\<lparr>characters := characters b @ [c]\<rparr>"

definition appendString :: "WTFString \<Rightarrow> WTFString \<Rightarrow> WTFString" where
  "appendString b s =
     (if characters s = [] then b
      else \<lparr>is8Bit = (is8Bit b \<and> is8Bit s), characters = characters b @ characters s\<rparr>)"

definition comma :: UChar where
  "comma = 44"

text \<open>The loop over \<open>pendingActions.selectors\<close>, with its index \<open>i\<close>.\<close>

fun combineSelectors :: "WTFString \<Rightarrow> nat \<Rightarrow> WTFString list \<Rightarrow> WTFString" where
  "combineSelectors combinedSelectors i [] = combinedSelectors"
| "combineSelectors combinedSelectors i (s # ss) =
     combineSelectors
       (appendString (if i \<noteq> 0 then appendCharacter combinedSelectors comma else combinedSelectors) s)
       (Suc i) ss"

text \<open>The loop over \<open>pendingActions.clientLocations\<close>; an index out of range crashes.\<close>

fun setClientLocations :: "nat list \<Rightarrow> nat \<Rightarrow> nat list \<Rightarrow> Fatal + nat list" where
  "setClientLocations [] actionLocation actionLocations = Inr actionLocations"
| "setClientLocations (clientLocation # rest) actionLocation actionLocations =
     (if clientLocation < length actionLocations
      then setClientLocations rest actionLocation (actionLocations[clientLocation := actionLocation])
      else Inl VectorIndexOutOfRange)"

text \<open>The loop over the slots of the map, in the order the caller iterates them.\<close>

fun resolveSlots ::
  "(ActionType \<Rightarrow> SerializedActionByte) \<Rightarrow> SerializedActionByte list \<Rightarrow> nat list
    \<Rightarrow> (Trigger \<times> PendingDisplayNoneActions) list
    \<Rightarrow> Fatal + (SerializedActionByte list \<times> nat list)" where
  "resolveSlots typeByte actions actionLocations [] = Inr (actions, actionLocations)"
| "resolveSlots typeByte actions actionLocations (slot # slots) =
     (let pendingActions = snd slot;
          combinedSelectors = combineSelectors emptyBuilder 0 (selectors pendingActions);
          actionLocation = length actions;
          actions' = serializeSelector typeByte actions combinedSelectors
      in case setClientLocations (clientLocations pendingActions) actionLocation actionLocations of
           Inl f \<Rightarrow> Inl f
         | Inr actionLocations' \<Rightarrow> resolveSlots typeByte actions' actionLocations' slots)"

text \<open>
  \<open>iterationOrder\<close> is the order in which the hash map hands out its slots: it depends
  on \<open>TriggerHash\<close>, declared outside the file. The result carries the cleared map.
\<close>

definition resolvePendingDisplayNoneActions ::
  "(ActionType \<Rightarrow> SerializedActionByte)
    \<Rightarrow> (PendingDisplayNoneActionsMap \<Rightarrow> PendingDisplayNoneActionsMap)
    \<Rightarrow> SerializedActionByte list \<Rightarrow> nat list \<Rightarrow> PendingDisplayNoneActionsMap
    \<Rightarrow> Fatal + (SerializedActionByte list \<times> nat list \<times> PendingDisplayNoneActionsMap)" where
  "resolvePendingDisplayNoneActions typeByte iterationOrder actions actionLocations
       pendingDisplayNoneActionsMap =
     (case resolveSlots typeByte actions actionLocations (iterationOrder pendingDisplayNoneActionsMap) of
        Inl f \<Rightarrow> Inl f
      | Inr (actions', actionLocations') \<Rightarrow> Inr (actions', actionLocations', []))"

subsection \<open>serializeActions\<close>

type_synonym ActionMap = "32 word \<rightharpoonup> nat"

record SerializerState =
  actions :: "SerializedActionByte list"
  actionLocations :: "nat list"
  blockLoadActionsMap :: ActionMap
  blockCookiesActionsMap :: ActionMap
  cssDisplayNoneActionsMap :: PendingDisplayNoneActionsMap
  ignorePreviousRuleActionsMap :: ActionMap
  makeHTTPSActionsMap :: ActionMap

definition initialState :: SerializerState where
  "initialState =
     \<lparr>actions = [], actionLocations = [], blockLoadActionsMap = Map.empty,
      blockCookiesActionsMap = Map.empty, cssDisplayNoneActionsMap = [],
      ignorePreviousRuleActionsMap = Map.empty, makeHTTPSActionsMap = Map.empty\<rparr>"

text \<open>
  The lambda \<open>findOrMakeActionLocation\<close>: it returns the map, the action buffer and
  the local \<open>actionLocation\<close> it assigns.
\<close>

definition findOrMakeActionLocation ::
  "(ActionType \<Rightarrow> SerializedActionByte) \<Rightarrow> ActionType \<Rightarrow> ResourceFlags \<Rightarrow> ActionMap
    \<Rightarrow> SerializedActionByte list \<Rightarrow> ActionMap \<times> SerializedActionByte list \<times> nat" where
  "findOrMakeActionLocation typeByte ty fl m acts =
     (case m fl of
        None \<Rightarrow> (m(fl \<mapsto> length acts), acts @ [typeByte ty], length acts)
      | Some existingAction \<Rightarrow> (m, acts, existingAction))"

text \<open>
  \<open>cssDisplayNoneActionsMap.add(trigger, PendingDisplayNoneActions())\<close> followed by the
  two appends to the slot it returns: an existing slot is extended in place, a new one is
  added to the map.
\<close>

fun addPending ::
  "PendingDisplayNoneActionsMap \<Rightarrow> Trigger \<Rightarrow> WTFString \<Rightarrow> nat \<Rightarrow> PendingDisplayNoneActionsMap" where
  "addPending [] t s loc = [(t, \<lparr>selectors = [s], clientLocations = [loc]\<rparr>)]"
| "addPending ((t', p) # m) t s loc =
     (if t' = t
      then (t', p\<lparr>selectors := selectors p @ [s], clientLocations := clientLocations p @ [loc]\<rparr>) # m
      else (t', p) # addPending m t s loc)"

text \<open>The head of the loop body: what an \<open>IgnorePreviousRules\<close> rule, or any other, clears.\<close>

definition clearMaps ::
  "(ActionType \<Rightarrow> SerializedActionByte)
    \<Rightarrow> (PendingDisplayNoneActionsMap \<Rightarrow> PendingDisplayNoneActionsMap)
    \<Rightarrow> SerializerState \<Rightarrow> ActionType \<Rightarrow> Fatal + SerializerState" where
  "clearMaps typeByte iterationOrder st ty =
     (if ty = IgnorePreviousRules
      then (case resolvePendingDisplayNoneActions typeByte iterationOrder (actions st)
                   (actionLocations st) (cssDisplayNoneActionsMap st) of
              Inl f \<Rightarrow> Inl f
            | Inr (actions', actionLocations', resolved) \<Rightarrow>
                Inr (st\<lparr>actions := actions', actionLocations := actionLocations',
                        blockLoadActionsMap := Map.empty, blockCookiesActionsMap := Map.empty,
                        cssDisplayNoneActionsMap := [], makeHTTPSActionsMap := Map.empty\<rparr>))
      else Inr (st\<lparr>ignorePreviousRuleActionsMap := Map.empty\<rparr>))"

text \<open>The rest of the loop body: the rule with conditions, then the switch.\<close>

definition assignActionLocation ::
  "(ActionType \<Rightarrow> SerializedActionByte) \<Rightarrow> SerializerState \<Rightarrow> ContentExtensionRule
    \<Rightarrow> Fatal + SerializerState" where
  "assignActionLocation typeByte st rule =
     (let ty = actionType (action rule) in
      if conditions (trigger rule) \<noteq> []
      then Inr (st\<lparr>actionLocations := actionLocations st @ [length (actions st)],
                   actions := (if ty = CSSDisplayNoneSelector
                               then serializeSelector typeByte (actions st) (stringArgument (action rule))
                               else actions st @ [typeByte ty])\<rparr>)
      else
        (case ty of
           CSSDisplayNoneStyleSheet \<Rightarrow> Inl NotReached
         | InvalidAction \<Rightarrow> Inl NotReached
         | CSSDisplayNoneSelector \<Rightarrow>
             Inr (st\<lparr>cssDisplayNoneActionsMap :=
                        addPending (cssDisplayNoneActionsMap st) (trigger rule)
                          (stringArgument (action rule)) (length (actionLocations st)),
                     actionLocations := actionLocations st @ [UINT_MAX]\<rparr>)
         | IgnorePreviousRules \<Rightarrow>
             (case findOrMakeActionLocation typeByte ty (flags (trigger rule))
                     (ignorePreviousRuleActionsMap st) (actions st) of
                (m, actions', actionLocation) \<Rightarrow>
                  Inr (st\<lparr>ignorePreviousRuleActionsMap := m, actions := actions',
                          actionLocations := actionLocations st @ [actionLocation]\<rparr>))
         | BlockLoad \<Rightarrow>
             (case findOrMakeActionLocation typeByte ty (flags (trigger rule))
                     (blockLoadActionsMap st) (actions st) of
                (m, actions', actionLocation) \<Rightarrow>
                  Inr (st\<lparr>blockLoadActionsMap := m, actions := actions',
                          actionLocations := actionLocations st @ [actionLocation]\<rparr>))
         | BlockCookies \<Rightarrow>
             (case findOrMakeActionLocation typeByte ty (flags (trigger rule))
                     (blockCookiesActionsMap st) (actions st) of
                (m, actions', actionLocation) \<Rightarrow>
                  Inr (st\<lparr>blockCookiesActionsMap := m, actions := actions',
                          actionLocations := actionLocations st @ [actionLocation]\<rparr>))
         | MakeHTTPS \<Rightarrow>
             (case findOrMakeActionLocation typeByte ty (flags (trigger rule))
                     (makeHTTPSActionsMap st) (actions st) of
                (m, actions', actionLocation) \<Rightarrow>
                  Inr (st\<lparr>makeHTTPSActionsMap := m, actions := actions',
                          actionLocations := actionLocations st @ [actionLocation]\<rparr>))))"

definition serializeRule ::
  "(ActionType \<Rightarrow> SerializedActionByte)
    \<Rightarrow> (PendingDisplayNoneActionsMap \<Rightarrow> PendingDisplayNoneActionsMap)
    \<Rightarrow> SerializerState \<Rightarrow> ContentExtensionRule \<Rightarrow> Fatal + SerializerState" where
  "serializeRule typeByte iterationOrder st rule =
     (case clearMaps typeByte iterationOrder st (actionType (action rule)) of
        Inl f \<Rightarrow> Inl f
      | Inr st' \<Rightarrow> assignActionLocation typeByte st' rule)"

text \<open>The loop over \<open>ruleList\<close>.\<close>

fun serializeRules ::
  "(ActionType \<Rightarrow> SerializedActionByte)
    \<Rightarrow> (PendingDisplayNoneActionsMap \<Rightarrow> PendingDisplayNoneActionsMap)
    \<Rightarrow> SerializerState \<Rightarrow> ContentExtensionRule list \<Rightarrow> Fatal + SerializerState" where
  "serializeRules typeByte iterationOrder st [] = Inr st"
| "serializeRules typeByte iterationOrder st (rule # rules) =
     (case serializeRule typeByte iterationOrder st rule of
        Inl f \<Rightarrow> Inl f
      | Inr st' \<Rightarrow> serializeRules typeByte iterationOrder st' rules)"

text \<open>
  \<open>serializeActions\<close> returns the action locations; the action buffer, which the source
  fills through a reference, is the second component.
\<close>

definition serializeActions ::
  "(ActionType \<Rightarrow> SerializedActionByte)
    \<Rightarrow> (PendingDisplayNoneActionsMap \<Rightarrow> PendingDisplayNoneActionsMap)
    \<Rightarrow> ContentExtensionRule list \<Rightarrow> Fatal + (nat list \<times> SerializedActionByte list)" where
  "serializeActions typeByte iterationOrder ruleList =
     (case serializeRules typeByte iterationOrder initialState ruleList of
        Inl f \<Rightarrow> Inl f
      | Inr st \<Rightarrow>
          (case resolvePendingDisplayNoneActions typeByte iterationOrder (actions st)
                  (actionLocations st) (cssDisplayNoneActionsMap st) of
             Inl f \<Rightarrow> Inl f
           | Inr (actions', actionLocations', resolved) \<Rightarrow> Inr (actionLocations', actions')))"

subsection \<open>addUniversalActionsToDFA\<close>

text \<open>
  Modelled from the spec: the DFA and its nodes (declared outside the file). A node has
  an actions sub-range (offset and 16-bit length into the shared actions array of its
  DFA) and a transition table, kept abstract as \<open>'t\<close>; a DFA has its nodes, one root and
  the actions array (the field \<open>actions\<close> of the source, here \<open>dfaActions\<close>).
\<close>

record 't DFANode =
  actionsStart :: nat
  actionsLength :: "16 word"
  transitions :: 't

record 't DFA =
  nodes :: "'t DFANode list"
  root :: nat
  dfaActions :: "64 word list"

definition setActions :: "'t DFANode \<Rightarrow> nat \<Rightarrow> 16 word \<Rightarrow> 't DFANode" where
  "setActions node start len = node\<lparr>actionsStart := start, actionsLength := len\<rparr>"

text \<open>
  The hash set of action-location-and-flags words, as the list of its elements in the
  order they were first added.
\<close>

type_synonym UniversalActionSet = "64 word list"

definition addToSet :: "UniversalActionSet \<Rightarrow> 64 word \<Rightarrow> UniversalActionSet" where
  "addToSet s w = (if w \<in> set s then s else s @ [w])"

text \<open>
  \<open>setOrder\<close> is the order in which the hash set hands out its elements.
  \<open>dfa.nodes[dfa.root]\<close> is read before anything is appended.
\<close>

definition addUniversalActionsToDFA ::
  "(UniversalActionSet \<Rightarrow> 64 word list) \<Rightarrow> 't DFA \<Rightarrow> UniversalActionSet \<Rightarrow> Fatal + 't DFA" where
  "addUniversalActionsToDFA setOrder dfa universalActions =
     (if universalActions = [] then Inr dfa
      else if \<not> root dfa < length (nodes dfa) then Inl VectorIndexOutOfRange
      else
        (let start = length (dfaActions dfa);
             actions' = dfaActions dfa @ setOrder universalActions;
             actionsEnd = length actions';
             len = actionsEnd - start
         in if \<not> len < 65535 then Inl TooManyUniversalActions
            else Inr (dfa\<lparr>dfaActions := actions',
                          nodes := (nodes dfa)[root dfa :=
                                      setActions (nodes dfa ! root dfa) start (of_nat len)]\<rparr>)))"

subsection \<open>compileRuleList\<close>

text \<open>
  \<open>URLFilterParser::ParseStatus\<close>: the file names \<open>Ok\<close> and \<open>MatchesEverything\<close>;
  \<open>ParseError\<close> stands for every other status, with its number. Of the error codes the
  file names \<open>JSONInvalidRegex\<close>; \<open>RuleListError\<close> stands for the codes the rule-list
  parser returns.
\<close>

datatype ParseStatus = Ok | MatchesEverything | ParseError nat

datatype ContentExtensionError = JSONInvalidRegex | RuleListError nat

type_synonym DFABytecode = "8 word"

datatype SinkCall =
    WriteActions "SerializedActionByte list"
  | WriteFiltersWithoutConditionsBytecode "DFABytecode list"
  | WriteFiltersWithConditionsBytecode "DFABytecode list"
  | WriteConditionedFiltersBytecode "DFABytecode list"
  | Finalize

text \<open>
  Modelled from the spec: \<open>CombinedURLFilters\<close> and \<open>URLFilterParser::addPattern\<close>
  (declared outside the file). The pattern parser reports \<open>Ok\<close>, \<open>MatchesEverything\<close>
  or a parse error for a pattern; a pattern is merged into the combined filters only when
  it is \<open>Ok\<close>, a pattern that matches everything is not inserted. The combined filters
  are the patterns and domains merged so far, each with its action word.
\<close>

datatype FilterEntry =
    PatternEntry WTFString bool "64 word"
  | DomainEntry "64 word" WTFString

type_synonym CombinedURLFilters = "FilterEntry list"

definition addPattern ::
  "(WTFString \<Rightarrow> bool \<Rightarrow> ParseStatus) \<Rightarrow> CombinedURLFilters \<Rightarrow> WTFString \<Rightarrow> bool \<Rightarrow> 64 word
    \<Rightarrow> ParseStatus \<times> CombinedURLFilters" where
  "addPattern parse filters pattern patternIsCaseSensitive patternId =
     (case parse pattern patternIsCaseSensitive of
        Ok \<Rightarrow> (Ok, filters @ [PatternEntry pattern patternIsCaseSensitive patternId])
      | status \<Rightarrow> (status, filters))"

definition addDomain :: "CombinedURLFilters \<Rightarrow> 64 word \<Rightarrow> WTFString \<Rightarrow> CombinedURLFilters" where
  "addDomain filters actionId domain = filters @ [DomainEntry actionId domain]"

text \<open>
  What the file takes from outside: the rule-list parser, the values of the action
  types, the iteration orders of the hash map and of the hash set, the constant
  \<open>IfConditionFlag\<close>, the pattern parser, \<open>CombinedURLFilters::processNFAs\<close> (the NFAs
  its callback receives, in order), \<open>NFAToDFA::convert\<close>, \<open>DFA::graphSize\<close>,
  \<open>DFA::minimize\<close>, \<open>DFACombiner::combineDFAs\<close> (the DFAs its callback receives for
  the DFAs added), the bytecode compiler and \<open>DFA::empty\<close>.
\<close>

record ('j, 'n, 't) Collaborators =
  parseRuleList :: "'j \<Rightarrow> ContentExtensionError + ContentExtensionRule list"
  typeByte :: "ActionType \<Rightarrow> SerializedActionByte"
  pendingIterationOrder :: "PendingDisplayNoneActionsMap \<Rightarrow> PendingDisplayNoneActionsMap"
  universalIterationOrder :: "UniversalActionSet \<Rightarrow> 64 word list"
  IfConditionFlag :: "64 word"
  patternStatus :: "WTFString \<Rightarrow> bool \<Rightarrow> ParseStatus"
  processNFAs :: "CombinedURLFilters \<Rightarrow> nat \<Rightarrow> 'n list"
  convert :: "'n \<Rightarrow> 't DFA"
  graphSize :: "'t DFA \<Rightarrow> nat"
  minimize :: "'t DFA \<Rightarrow> 't DFA"
  combineDFAs :: "'t DFA list \<Rightarrow> nat \<Rightarrow> 't DFA list"
  compile :: "'t DFA \<Rightarrow> DFABytecode list"
  emptyDFA :: "'t DFA"

record PartitionState =
  universalActionsWithoutConditions :: UniversalActionSet
  universalActionsWithConditions :: UniversalActionSet
  filtersWithoutConditions :: CombinedURLFilters
  filtersWithConditions :: CombinedURLFilters
  conditionFilters :: CombinedURLFilters

definition initialPartition :: PartitionState where
  "initialPartition =
     \<lparr>universalActionsWithoutConditions = [], universalActionsWithConditions = [],
      filtersWithoutConditions = [], filtersWithConditions = [], conditionFilters = []\<rparr>"

text \<open>
  \<open>(static_cast<uint64_t>(trigger.flags) << 32) | static_cast<uint64_t>(actionLocations[ruleIndex])\<close>;
  an action location is an \<open>unsigned\<close>.
\<close>

definition actionLocationAndFlagsWord :: "ResourceFlags \<Rightarrow> nat \<Rightarrow> 64 word" where
  "actionLocationAndFlagsWord fl actionLocation =
     push_bit 32 (ucast fl) OR ucast (of_nat actionLocation :: 32 word)"

text \<open>
  The body of the loop that partitions the rules. The result is a crash, the error code
  returned at once, or the state for the next rule.
\<close>

definition partitionRule ::
  "('j, 'n, 't) Collaborators \<Rightarrow> nat list \<Rightarrow> PartitionState \<Rightarrow> nat \<Rightarrow> ContentExtensionRule
    \<Rightarrow> Fatal + (ContentExtensionError + PartitionState)" where
  "partitionRule env locations st ruleIndex contentExtensionRule =
     (let t = trigger contentExtensionRule in
      if \<not> ruleIndex < length locations then Inl VectorIndexOutOfRange
      else
        (let actionLocationAndFlags = actionLocationAndFlagsWord (flags t) (locations ! ruleIndex) in
         if conditions t = []
         then
           (case addPattern (patternStatus env) (filtersWithoutConditions st) (urlFilter t)
                   (urlFilterIsCaseSensitive t) actionLocationAndFlags of
              (status, filters') \<Rightarrow>
                (let st1 = st\<lparr>filtersWithoutConditions := filters'\<rparr>;
                     st2 = (if status = MatchesEverything
                            then st1\<lparr>universalActionsWithoutConditions :=
                                       addToSet (universalActionsWithoutConditions st1) actionLocationAndFlags\<rparr>
                            else st1);
                     status' = (if status = MatchesEverything then Ok else status)
                 in if status' \<noteq> Ok then Inr (Inl JSONInvalidRegex) else Inr (Inr st2)))
         else
           (let actionLocationAndFlags' =
                  (case conditionType t of
                     IfDomain \<Rightarrow> actionLocationAndFlags OR IfConditionFlag env
                   | ConditionNone \<Rightarrow> actionLocationAndFlags
                   | UnlessDomain \<Rightarrow> actionLocationAndFlags)
            in case addPattern (patternStatus env) (filtersWithConditions st) (urlFilter t)
                    (urlFilterIsCaseSensitive t) actionLocationAndFlags' of
                 (status, filters') \<Rightarrow>
                   (let st1 = st\<lparr>filtersWithConditions := filters'\<rparr>;
                        st2 = (if status = MatchesEverything
                               then st1\<lparr>universalActionsWithConditions :=
                                          addToSet (universalActionsWithConditions st1) actionLocationAndFlags'\<rparr>
                               else st1);
                        status' = (if status = MatchesEverything then Ok else status)
                    in if status' \<noteq> Ok then Inr (Inl JSONInvalidRegex)
                       else Inr (Inr (st2\<lparr>conditionFilters :=
                                            foldl (\<lambda>filters condition.
                                                     addDomain filters actionLocationAndFlags' condition)
                                              (conditionFilters st2) (conditions t)\<rparr>))))))"

fun partitionRules ::
  "('j, 'n, 't) Collaborators \<Rightarrow> nat list \<Rightarrow> PartitionState \<Rightarrow> nat \<Rightarrow> ContentExtensionRule list
    \<Rightarrow> Fatal + (ContentExtensionError + PartitionState)" where
  "partitionRules env locations st ruleIndex [] = Inr (Inr st)"
| "partitionRules env locations st ruleIndex (rule # rules) =
     (case partitionRule env locations st ruleIndex rule of
        Inl f \<Rightarrow> Inl f
      | Inr (Inl e) \<Rightarrow> Inr (Inl e)
      | Inr (Inr st') \<Rightarrow> partitionRules env locations st' (Suc ruleIndex) rules)"

definition maxNFASize :: nat where
  "maxNFASize = 75000"

definition smallDFASize :: nat where
  "smallDFASize = 100"

text \<open>
  The state the two lowering lambdas and the callbacks around them share: the calls the
  sink has received, the flag \<open>firstNFA...Seen\<close> and the DFAs added to the combiner.
\<close>

record 't StreamState =
  client :: "SinkCall list"
  firstNFASeen :: bool
  smallDFACombiner :: "'t DFA list"

text \<open>
  The lambdas \<open>lowerFiltersWithoutConditionsDFAToBytecode\<close> and
  \<open>lowerFiltersWithConditionsDFAToBytecode\<close> differ in the sink method they call, which
  is \<open>write\<close> here.
\<close>

definition lowerDFAToBytecode ::
  "('j, 'n, 't) Collaborators \<Rightarrow> (DFABytecode list \<Rightarrow> SinkCall) \<Rightarrow> UniversalActionSet
    \<Rightarrow> 't StreamState \<Rightarrow> 't DFA \<Rightarrow> Fatal + 't StreamState" where
  "lowerDFAToBytecode env write universalActions st dfa =
     (case (if \<not> firstNFASeen st
            then addUniversalActionsToDFA (universalIterationOrder env) dfa universalActions
            else Inr dfa) of
        Inl f \<Rightarrow> Inl f
      | Inr dfa' \<Rightarrow> Inr (st\<lparr>client := client st @ [write (compile env dfa')], firstNFASeen := True\<rparr>))"

text \<open>The callback given to \<open>processNFAs\<close>, run on each NFA in turn.\<close>

fun handleNFAs ::
  "('j, 'n, 't) Collaborators \<Rightarrow> (DFABytecode list \<Rightarrow> SinkCall) \<Rightarrow> UniversalActionSet
    \<Rightarrow> 't StreamState \<Rightarrow> 'n list \<Rightarrow> Fatal + 't StreamState" where
  "handleNFAs env write universalActions st [] = Inr st"
| "handleNFAs env write universalActions st (nfa # nfas) =
     (let dfa = convert env nfa in
      if graphSize env dfa < smallDFASize
      then handleNFAs env write universalActions
             (st\<lparr>smallDFACombiner := smallDFACombiner st @ [dfa]\<rparr>) nfas
      else (case lowerDFAToBytecode env write universalActions st (minimize env dfa) of
              Inl f \<Rightarrow> Inl f
            | Inr st' \<Rightarrow> handleNFAs env write universalActions st' nfas))"

text \<open>The callback given to \<open>combineDFAs\<close>, run on each combined DFA in turn.\<close>

fun lowerDFAs ::
  "('j, 'n, 't) Collaborators \<Rightarrow> (DFABytecode list \<Rightarrow> SinkCall) \<Rightarrow> UniversalActionSet
    \<Rightarrow> 't StreamState \<Rightarrow> 't DFA list \<Rightarrow> Fatal + 't StreamState" where
  "lowerDFAs env write universalActions st [] = Inr st"
| "lowerDFAs env write universalActions st (dfa # dfas) =
     (case lowerDFAToBytecode env write universalActions st dfa of
        Inl f \<Rightarrow> Inl f
      | Inr st' \<Rightarrow> lowerDFAs env write universalActions st' dfas)"

text \<open>
  One stream of filters, from \<open>processNFAs\<close> to the dummy DFA: the calls the sink has
  received when the stream is done.
\<close>

definition compileFilters ::
  "('j, 'n, 't) Collaborators \<Rightarrow> (DFABytecode list \<Rightarrow> SinkCall) \<Rightarrow> UniversalActionSet
    \<Rightarrow> CombinedURLFilters \<Rightarrow> SinkCall list \<Rightarrow> Fatal + SinkCall list" where
  "compileFilters env write universalActions filters calls =
     (case handleNFAs env write universalActions
             \<lparr>client = calls, firstNFASeen = False, smallDFACombiner = []\<rparr>
             (processNFAs env filters maxNFASize) of
        Inl f \<Rightarrow> Inl f
      | Inr st1 \<Rightarrow>
          (case lowerDFAs env write universalActions st1
                  (combineDFAs env (smallDFACombiner st1) smallDFASize) of
             Inl f \<Rightarrow> Inl f
           | Inr st2 \<Rightarrow>
               if \<not> firstNFASeen st2
               then (case addUniversalActionsToDFA (universalIterationOrder env) (emptyDFA env)
                            universalActions of
                       Inl f \<Rightarrow> Inl f
                     | Inr dummyDFA \<Rightarrow> Inr (client st2 @ [write (compile env dummyDFA)]))
               else Inr (client st2)))"

text \<open>
  The callback given to \<open>conditionFilters.processNFAs\<close>: the calls the sink receives
  for the domain-condition filters.
\<close>

definition compileConditionFilters ::
  "('j, 'n, 't) Collaborators \<Rightarrow> CombinedURLFilters \<Rightarrow> SinkCall list" where
  "compileConditionFilters env filters =
     map (\<lambda>nfa. WriteConditionedFiltersBytecode (compile env (convert env nfa)))
       (processNFAs env filters maxNFASize)"

text \<open>
  \<open>compileRuleList\<close>: a crash, or the calls the sink received and the error code
  returned (\<open>None\<close> for the empty error code).
\<close>

definition compileRuleList ::
  "('j, 'n, 't) Collaborators \<Rightarrow> 'j \<Rightarrow> Fatal + (SinkCall list \<times> ContentExtensionError option)" where
  "compileRuleList env ruleJSON =
     (case parseRuleList env ruleJSON of
        Inl e \<Rightarrow> Inr ([], Some e)
      | Inr parsedRuleList \<Rightarrow>
          (case serializeActions (typeByte env) (pendingIterationOrder env) parsedRuleList of
             Inl f \<Rightarrow> Inl f
           | Inr (locations, acts) \<Rightarrow>
               (case partitionRules env locations initialPartition 0 parsedRuleList of
                  Inl f \<Rightarrow> Inl f
                | Inr (Inl e) \<Rightarrow> Inr ([WriteActions acts], Some e)
                | Inr (Inr p) \<Rightarrow>
                    (case compileFilters env WriteFiltersWithoutConditionsBytecode
                            (universalActionsWithoutConditions p) (filtersWithoutConditions p)
                            [WriteActions acts] of
                       Inl f \<Rightarrow> Inl f
                     | Inr calls1 \<Rightarrow>
                         (case compileFilters env WriteFiltersWithConditionsBytecode
                                 (universalActionsWithConditions p) (filtersWithConditions p)
                                 calls1 of
                            Inl f \<Rightarrow> Inl f
                          | Inr calls2 \<Rightarrow>
                              Inr (calls2 @ compileConditionFilters env (conditionFilters p)
                                   @ [Finalize], None))))))"

text \<open>The calls to \<open>writeConditionedFiltersBytecode\<close> among the calls of the sink.\<close>

fun isConditionedFiltersCall :: "SinkCall \<Rightarrow> bool" where
  "isConditionedFiltersCall (WriteConditionedFiltersBytecode b) = True"
| "isConditionedFiltersCall c = False"

subsection \<open>Iteration orders and a small instance of the collaborators\<close>

text \<open>
  Iterating a hash map or a hash set visits every element once, in an order of its own:
  the list handed out is a permutation of the elements.
\<close>

definition iteratesAll :: "('a list \<Rightarrow> 'a list) \<Rightarrow> bool" where
  "iteratesAll order \<longleftrightarrow> (\<forall>xs. mset (order xs) = mset xs)"

text \<open>
  An instance on which the definitions can be run. The rule list is given parsed; the
  action types are numbered in the order of the enumeration; both hash containers iterate
  in reverse order of insertion; the pattern \<open>.*\<close> matches everything and a pattern
  with \<open>[\<close> does not parse; all filters go into one NFA, and none is made when there is
  no filter; every DFA has the single node of the empty DFA; the bytecode of a DFA is its
  number of nodes and the low bytes of its actions.
\<close>

definition exampleTypeByte :: "ActionType \<Rightarrow> SerializedActionByte" where
  "exampleTypeByte ty =
     (case ty of BlockLoad \<Rightarrow> 0 | BlockCookies \<Rightarrow> 1 | CSSDisplayNoneSelector \<Rightarrow> 2
      | CSSDisplayNoneStyleSheet \<Rightarrow> 3 | IgnorePreviousRules \<Rightarrow> 4 | MakeHTTPS \<Rightarrow> 5
      | InvalidAction \<Rightarrow> 6)"

definition examplePatternStatus :: "WTFString \<Rightarrow> bool \<Rightarrow> ParseStatus" where
  "examplePatternStatus pattern patternIsCaseSensitive =
     (if characters pattern = [46, 42] then MatchesEverything
      else if 91 \<in> set (characters pattern) then ParseError 0
      else Ok)"

definition exampleDFA :: "unit DFA" where
  "exampleDFA =
     \<lparr>nodes = [\<lparr>actionsStart = 0, actionsLength = 0, transitions = ()\<rparr>], root = 0, dfaActions = []\<rparr>"

definition exampleCollaborators ::
  "(ContentExtensionRule list, CombinedURLFilters, unit) Collaborators" where
  "exampleCollaborators =
     \<lparr>parseRuleList = Inr,
      typeByte = exampleTypeByte,
      pendingIterationOrder = rev,
      universalIterationOrder = rev,
      IfConditionFlag = 140737488355328,
      patternStatus = examplePatternStatus,
      processNFAs = (\<lambda>filters maxSize. if filters = [] then [] else [filters]),
      convert = (\<lambda>nfa. exampleDFA),
      graphSize = (\<lambda>dfa. length (nodes dfa)),
      minimize = (\<lambda>dfa. dfa),
      combineDFAs = (\<lambda>dfas minimumSize. dfas),
      compile = (\<lambda>dfa. of_nat (length (nodes dfa)) # map ucast (dfaActions dfa)),
      emptyDFA = exampleDFA\<rparr>"

text \<open>Strings, triggers and rules of the examples.\<close>

definition narrow :: "UChar list \<Rightarrow> WTFString" where
  "narrow cs = \<lparr>is8Bit = True, characters = cs\<rparr>"

definition exampleRule ::
  "ActionType \<Rightarrow> UChar list \<Rightarrow> ResourceFlags \<Rightarrow> WTFString list \<Rightarrow> UChar list \<Rightarrow> ContentExtensionRule" where
  "exampleRule ty pattern fl domains selector =
     \<lparr>trigger = \<lparr>urlFilter = narrow pattern, urlFilterIsCaseSensitive = False, flags = fl,
                  conditions = domains,
                  conditionType = (if domains = [] then ConditionNone else IfDomain)\<rparr>,
      action = \<lparr>actionType = ty, stringArgument = narrow selector\<rparr>\<rparr>"

text \<open>The pattern of a rule fails to parse.\<close>

definition failsToParse :: "('j, 'n, 't) Collaborators \<Rightarrow> ContentExtensionRule \<Rightarrow> bool" where
  "failsToParse env rule \<longleftrightarrow>
     patternStatus env (urlFilter (trigger rule)) (urlFilterIsCaseSensitive (trigger rule)) \<noteq> Ok
   \<and> patternStatus env (urlFilter (trigger rule)) (urlFilterIsCaseSensitive (trigger rule)) \<noteq> MatchesEverything"

text \<open>
  The root of a DFA is one of its nodes, and the collaborators only make such DFAs.
\<close>

definition rootInRange :: "'t DFA \<Rightarrow> bool" where
  "rootInRange dfa \<longleftrightarrow> root dfa < length (nodes dfa)"

definition rootsInRange :: "('j, 'n, 't) Collaborators \<Rightarrow> bool" where
  "rootsInRange env \<longleftrightarrow>
     rootInRange (emptyDFA env)
   \<and> (\<forall>nfa. rootInRange (convert env nfa))
   \<and> (\<forall>dfa. rootInRange dfa \<longrightarrow> rootInRange (minimize env dfa))
   \<and> (\<forall>dfas minimumSize. (\<forall>dfa \<in> set dfas. rootInRange dfa)
          \<longrightarrow> (\<forall>dfa \<in> set (combineDFAs env dfas minimumSize). rootInRange dfa))"

text \<open>The entry \<open>e\<close> lies in the buffer at offset \<open>offset\<close>.\<close>

definition entryAt :: "'a list \<Rightarrow> nat \<Rightarrow> 'a list \<Rightarrow> bool" where
  "entryAt buffer offset e \<longleftrightarrow> take (length e) (drop offset buffer) = e"

text \<open>The serialized selector action, and the selectors of a slot joined with commas.\<close>

definition selectorEntry :: "(ActionType \<Rightarrow> SerializedActionByte) \<Rightarrow> WTFString \<Rightarrow> SerializedActionByte list" where
  "selectorEntry tb selector = serializeSelector tb [] selector"

definition joinSelectors :: "WTFString list \<Rightarrow> WTFString" where
  "joinSelectors sels = combineSelectors emptyBuilder 0 sels"

text \<open>The rule indices that wait in the slots of the map.\<close>

definition slotClients :: "PendingDisplayNoneActionsMap \<Rightarrow> nat list" where
  "slotClients slots = concat (map (\<lambda>slot. clientLocations (snd slot)) slots)"

text \<open>
  The state of the serializer is well formed: the keys of the pending map are distinct,
  no rule waits in two slots or twice, and every waiting rule has its entry in the array
  of action locations.
\<close>

definition wellFormed :: "SerializerState \<Rightarrow> bool" where
  "wellFormed st \<longleftrightarrow>
     distinct (map fst (cssDisplayNoneActionsMap st))
   \<and> distinct (slotClients (cssDisplayNoneActionsMap st))
   \<and> (\<forall>c \<in> set (slotClients (cssDisplayNoneActionsMap st)). c < length (actionLocations st))"

text \<open>The selectors and the clients that wait for a trigger.\<close>

definition pendingSelectors :: "PendingDisplayNoneActionsMap \<Rightarrow> Trigger \<Rightarrow> WTFString list" where
  "pendingSelectors P t = (case map_of P t of None \<Rightarrow> [] | Some p \<Rightarrow> selectors p)"

definition pendingClients :: "PendingDisplayNoneActionsMap \<Rightarrow> Trigger \<Rightarrow> nat list" where
  "pendingClients P t = (case map_of P t of None \<Rightarrow> [] | Some p \<Rightarrow> clientLocations p)"

text \<open>
  From one state of the serializer to a later one: the buffer has only grown, and an
  action location that no slot waited for is kept, while one that a slot waited for still
  waits or has become an offset in the part of the buffer added since.
\<close>

definition carries :: "SerializerState \<Rightarrow> SerializerState \<Rightarrow> bool" where
  "carries st st' \<longleftrightarrow>
     (\<exists>appended. actions st' = actions st @ appended)
   \<and> length (actionLocations st) \<le> length (actionLocations st')
   \<and> (\<forall>k < length (actionLocations st).
        (k \<notin> set (slotClients (cssDisplayNoneActionsMap st)) \<longrightarrow>
            actionLocations st' ! k = actionLocations st ! k
          \<and> k \<notin> set (slotClients (cssDisplayNoneActionsMap st')))
      \<and> (k \<in> set (slotClients (cssDisplayNoneActionsMap st)) \<longrightarrow>
            k \<in> set (slotClients (cssDisplayNoneActionsMap st'))
          \<or> (length (actions st) \<le> actionLocations st' ! k
              \<and> actionLocations st' ! k < length (actions st'))))"

text \<open>
  A rule the parser can hand over: without conditions its action is none of the two
  types the switch does not expect.
\<close>

definition validRule :: "ContentExtensionRule \<Rightarrow> bool" where
  "validRule rule \<longleftrightarrow>
     (conditions (trigger rule) = [] \<longrightarrow>
        actionType (action rule) \<noteq> CSSDisplayNoneStyleSheet \<and> actionType (action rule) \<noteq> InvalidAction)"

text \<open>The dedup map of an action type, and the state with that map replaced.\<close>

definition dedupMap :: "ActionType \<Rightarrow> SerializerState \<Rightarrow> ActionMap" where
  "dedupMap ty st =
     (case ty of
        BlockLoad \<Rightarrow> blockLoadActionsMap st
      | BlockCookies \<Rightarrow> blockCookiesActionsMap st
      | IgnorePreviousRules \<Rightarrow> ignorePreviousRuleActionsMap st
      | MakeHTTPS \<Rightarrow> makeHTTPSActionsMap st
      | _ \<Rightarrow> Map.empty)"

definition setDedupMap :: "ActionType \<Rightarrow> ActionMap \<Rightarrow> SerializerState \<Rightarrow> SerializerState" where
  "setDedupMap ty m st =
     (case ty of
        BlockLoad \<Rightarrow> st\<lparr>blockLoadActionsMap := m\<rparr>
      | BlockCookies \<Rightarrow> st\<lparr>blockCookiesActionsMap := m\<rparr>
      | IgnorePreviousRules \<Rightarrow> st\<lparr>ignorePreviousRuleActionsMap := m\<rparr>
      | MakeHTTPS \<Rightarrow> st\<lparr>makeHTTPSActionsMap := m\<rparr>
      | _ \<Rightarrow> st)"

definition dedupType :: "ActionType \<Rightarrow> bool" where
  "dedupType ty \<longleftrightarrow> ty = BlockLoad \<or> ty = BlockCookies \<or> ty = IgnorePreviousRules \<or> ty = MakeHTTPS"

text \<open>
  Every action location that no slot waits for, and every value of a dedup map, is an
  offset inside the action buffer.
\<close>

definition inBuffer :: "SerializerState \<Rightarrow> bool" where
  "inBuffer st \<longleftrightarrow>
     (\<forall>k < length (actionLocations st).
        k \<in> set (slotClients (cssDisplayNoneActionsMap st)) \<or> actionLocations st ! k < length (actions st))
   \<and> (\<forall>ty fl v. dedupMap ty st fl = Some v \<longrightarrow> v < length (actions st))"

text \<open>
  The offset \<open>offset\<close> belongs to the rule \<open>i\<close> alone: it is the action location of
  the rule \<open>i\<close>, of no other rule that does not wait in a slot, and of no dedup map.
\<close>

definition uniqueAt :: "nat \<Rightarrow> nat \<Rightarrow> SerializerState \<Rightarrow> bool" where
  "uniqueAt i offset st \<longleftrightarrow>
     offset < length (actions st)
   \<and> (\<forall>ty fl. dedupMap ty st fl \<noteq> Some offset)
   \<and> i < length (actionLocations st)
   \<and> actionLocations st ! i = offset
   \<and> i \<notin> set (slotClients (cssDisplayNoneActionsMap st))
   \<and> (\<forall>k < length (actionLocations st). k \<noteq> i \<longrightarrow>
         k \<in> set (slotClients (cssDisplayNoneActionsMap st)) \<or> actionLocations st ! k \<noteq> offset)"

text \<open>
  The part of the buffer from \<open>bound\<close> on: the buffer reaches it, and the dedup maps of
  the action types other than \<open>IgnorePreviousRules\<close> only hold offsets in it.
\<close>

definition above :: "nat \<Rightarrow> SerializerState \<Rightarrow> bool" where
  "above bound st \<longleftrightarrow>
     bound \<le> length (actions st)
   \<and> (\<forall>ty fl v. ty \<noteq> IgnorePreviousRules \<longrightarrow> dedupMap ty st fl = Some v \<longrightarrow> bound \<le> v)"

text \<open>A rule without conditions whose action is \<open>IgnorePreviousRules\<close>.\<close>

definition plainIgnore :: "ContentExtensionRule \<Rightarrow> bool" where
  "plainIgnore rule \<longleftrightarrow>
     conditions (trigger rule) = [] \<and> actionType (action rule) = IgnorePreviousRules"

text \<open>
  A rule clears the dedup map of an action type: an \<open>IgnorePreviousRules\<close> rule clears
  the maps of the other types, any other rule clears the map of \<open>IgnorePreviousRules\<close>.
\<close>

definition clearsDedup :: "ActionType \<Rightarrow> ContentExtensionRule \<Rightarrow> bool" where
  "clearsDedup ty rule \<longleftrightarrow>
     (if ty = IgnorePreviousRules
      then actionType (action rule) \<noteq> IgnorePreviousRules
      else actionType (action rule) = IgnorePreviousRules)"

text \<open>A selector rule without conditions, and an \<open>IgnorePreviousRules\<close> rule.\<close>

definition plainSelector :: "ContentExtensionRule \<Rightarrow> bool" where
  "plainSelector rule \<longleftrightarrow>
     conditions (trigger rule) = [] \<and> actionType (action rule) = CSSDisplayNoneSelector"

definition isIgnore :: "ContentExtensionRule \<Rightarrow> bool" where
  "isIgnore rule \<longleftrightarrow> actionType (action rule) = IgnorePreviousRules"

text \<open>
  The group of a trigger in a run of rules that starts at the index \<open>first\<close>: the
  indices of the selector rules without conditions that have this trigger, and their
  selectors, both in the order of the rules.
\<close>

definition groupMembers :: "Trigger \<Rightarrow> ContentExtensionRule list \<Rightarrow> nat \<Rightarrow> nat list" where
  "groupMembers t run first =
     map fst (filter (\<lambda>(k, rule). plainSelector rule \<and> trigger rule = t) (enumerate first run))"

definition groupSelectors :: "Trigger \<Rightarrow> ContentExtensionRule list \<Rightarrow> WTFString list" where
  "groupSelectors t run =
     map (\<lambda>rule. stringArgument (action rule))
       (filter (\<lambda>rule. plainSelector rule \<and> trigger rule = t) run)"

text \<open>Strings joined with commas.\<close>

fun commaJoined :: "UChar list list \<Rightarrow> UChar list" where
  "commaJoined [] = []"
| "commaJoined [s] = s"
| "commaJoined (s # s' # ss) = s @ comma # commaJoined (s' # ss)"






text \<open>
  The pattern of a rule is reported to match everything; the action-location-and-flags
  word the loop makes for the rule at an index; the pattern of an entry of the combined
  filters parses to \<open>Ok\<close>.
\<close>

definition universalRule :: "('j, 'n, 't) Collaborators \<Rightarrow> ContentExtensionRule \<Rightarrow> bool" where
  "universalRule env rule \<longleftrightarrow>
     patternStatus env (urlFilter (trigger rule)) (urlFilterIsCaseSensitive (trigger rule))
       = MatchesEverything"

definition ruleWord ::
  "('j, 'n, 't) Collaborators \<Rightarrow> nat list \<Rightarrow> nat \<Rightarrow> ContentExtensionRule \<Rightarrow> 64 word" where
  "ruleWord env locations ruleIndex rule =
     (if conditions (trigger rule) \<noteq> [] \<and> conditionType (trigger rule) = IfDomain
      then actionLocationAndFlagsWord (flags (trigger rule)) (locations ! ruleIndex) OR IfConditionFlag env
      else actionLocationAndFlagsWord (flags (trigger rule)) (locations ! ruleIndex))"

fun patternIsOk :: "('j, 'n, 't) Collaborators \<Rightarrow> FilterEntry \<Rightarrow> bool" where
  "patternIsOk env (PatternEntry pattern patternIsCaseSensitive patternId) =
     (patternStatus env pattern patternIsCaseSensitive = Ok)"
| "patternIsOk env (DomainEntry actionId domain) = True"

text \<open>
  The universal action words of a stream, as the rule list gives them: the distinct
  action-location-and-flags words of the rules whose pattern is reported to match
  everything, those with conditions (\<open>conditioned\<close>) or those without.
\<close>

definition universalWords ::
  "('j, 'n, 't) Collaborators \<Rightarrow> nat list \<Rightarrow> ContentExtensionRule list \<Rightarrow> bool \<Rightarrow> 64 word list" where
  "universalWords env locations ruleList conditioned =
     remdups (map (\<lambda>(k, rule). ruleWord env locations k rule)
                (filter (\<lambda>(k, rule). (conditions (trigger rule) \<noteq> []) = conditioned \<and> universalRule env rule)
                   (enumerate 0 ruleList)))"

text \<open>
  A rule of the examples: it blocks the pattern \<open>.*\<close>, which matches everything, on
  the domain \<open>d\<close>.
\<close>

definition conditionedBlock :: ContentExtensionRule where
  "conditionedBlock = exampleRule BlockLoad [46, 42] 0 [narrow [100]] []"

section \<open>Properties\<close>

subsection \<open>Unfolding the definitions on concrete inputs\<close>

lemmas example_defs =
  exampleCollaborators_def exampleTypeByte_def examplePatternStatus_def exampleDFA_def
  narrow_def exampleRule_def

lemmas serializer_defs =
  serializeActions_def serializeRule_def clearMaps_def assignActionLocation_def initialState_def
  resolvePendingDisplayNoneActions_def serializeSelector_def findOrMakeActionLocation_def
  emptyBuilder_def appendString_def appendCharacter_def comma_def unsignedBytes_def ucharBytes_def
  UINT_MAX_def

lemmas compiler_defs =
  compileRuleList_def partitionRule_def initialPartition_def addPattern_def addDomain_def
  addToSet_def actionLocationAndFlagsWord_def compileFilters_def lowerDFAToBytecode_def
  addUniversalActionsToDFA_def setActions_def compileConditionFilters_def maxNFASize_def
  smallDFASize_def

subsection \<open>The calls the sink receives\<close>

lemma lowerDFAToBytecode_Inr:
  assumes "lowerDFAToBytecode env write ua st dfa = Inr st'"
  shows "\<exists>b. client st' = client st @ [write b]" and "firstNFASeen st'"
    and "smallDFACombiner st' = smallDFACombiner st"
  using assms by (auto simp: lowerDFAToBytecode_def split: sum.splits if_splits)

lemma handleNFAs_Inr:
  "handleNFAs env write ua st nfas = Inr st' \<Longrightarrow>
     \<exists>bs. client st' = client st @ map write bs \<and> (firstNFASeen st' \<longleftrightarrow> firstNFASeen st \<or> bs \<noteq> [])"
proof (induction nfas arbitrary: st)
  case Nil
  then show ?case by auto
next
  case (Cons nfa nfas)
  show ?case
  proof (cases "graphSize env (convert env nfa) < smallDFASize")
    case True
    with Cons.prems have "handleNFAs env write ua (st\<lparr>smallDFACombiner := smallDFACombiner st @ [convert env nfa]\<rparr>) nfas = Inr st'"
      by (simp add: Let_def)
    from Cons.IH [OF this] show ?thesis by simp
  next
    case False
    with Cons.prems obtain st1 where
      l: "lowerDFAToBytecode env write ua st (minimize env (convert env nfa)) = Inr st1"
      and h: "handleNFAs env write ua st1 nfas = Inr st'"
      by (auto simp: Let_def split: sum.splits)
    from lowerDFAToBytecode_Inr [OF l] obtain b where
      b: "client st1 = client st @ [write b]" and f: "firstNFASeen st1" by blast
    from Cons.IH [OF h] obtain bs where
      "client st' = client st1 @ map write bs" "firstNFASeen st' \<longleftrightarrow> firstNFASeen st1 \<or> bs \<noteq> []"
      by blast
    with b f have "client st' = client st @ map write (b # bs) \<and> (firstNFASeen st' \<longleftrightarrow> firstNFASeen st \<or> b # bs \<noteq> [])"
      by simp
    then show ?thesis by blast
  qed
qed

lemma lowerDFAs_Inr:
  "lowerDFAs env write ua st dfas = Inr st' \<Longrightarrow>
     \<exists>bs. client st' = client st @ map write bs \<and> (firstNFASeen st' \<longleftrightarrow> firstNFASeen st \<or> bs \<noteq> [])"
proof (induction dfas arbitrary: st)
  case Nil
  then show ?case by auto
next
  case (Cons dfa dfas)
  from Cons.prems obtain st1 where
    l: "lowerDFAToBytecode env write ua st dfa = Inr st1"
    and h: "lowerDFAs env write ua st1 dfas = Inr st'"
    by (auto split: sum.splits)
  from lowerDFAToBytecode_Inr [OF l] obtain b where
    b: "client st1 = client st @ [write b]" and f: "firstNFASeen st1" by blast
  from Cons.IH [OF h] obtain bs where
    "client st' = client st1 @ map write bs" "firstNFASeen st' \<longleftrightarrow> firstNFASeen st1 \<or> bs \<noteq> []"
    by blast
  with b f have "client st' = client st @ map write (b # bs) \<and> (firstNFASeen st' \<longleftrightarrow> firstNFASeen st \<or> b # bs \<noteq> [])"
    by simp
  then show ?case by blast
qed

lemma compileFilters_Inr:
  assumes "compileFilters env write ua filters calls = Inr calls'"
  shows "\<exists>bs. calls' = calls @ map write bs \<and> bs \<noteq> []"
proof -
  from assms obtain st1 st2 where
    h: "handleNFAs env write ua \<lparr>client = calls, firstNFASeen = False, smallDFACombiner = []\<rparr>
          (processNFAs env filters maxNFASize) = Inr st1"
    and l: "lowerDFAs env write ua st1 (combineDFAs env (smallDFACombiner st1) smallDFASize) = Inr st2"
    and r: "(if \<not> firstNFASeen st2
             then (case addUniversalActionsToDFA (universalIterationOrder env) (emptyDFA env) ua of
                     Inl f \<Rightarrow> Inl f
                   | Inr dummyDFA \<Rightarrow> Inr (client st2 @ [write (compile env dummyDFA)]))
             else Inr (client st2)) = Inr calls'"
    unfolding compileFilters_def by (simp split: sum.splits)
  from handleNFAs_Inr [OF h] obtain bs1 where
    1: "client st1 = calls @ map write bs1" "firstNFASeen st1 \<longleftrightarrow> bs1 \<noteq> []" by auto
  from lowerDFAs_Inr [OF l] obtain bs2 where
    2: "client st2 = client st1 @ map write bs2" "firstNFASeen st2 \<longleftrightarrow> firstNFASeen st1 \<or> bs2 \<noteq> []" by auto
  show ?thesis
  proof (cases "firstNFASeen st2")
    case True
    with r 1 2 have "calls' = calls @ map write (bs1 @ bs2) \<and> bs1 @ bs2 \<noteq> []" by auto
    then show ?thesis by blast
  next
    case False
    with r obtain d where "calls' = client st2 @ [write (compile env d)]"
      by (auto split: sum.splits)
    with 1 2 have "calls' = calls @ map write (bs1 @ bs2 @ [compile env d]) \<and> bs1 @ bs2 @ [compile env d] \<noteq> []" by simp
    then show ?thesis by blast
  qed
qed

lemma compileRuleList_success:
  assumes "compileRuleList env ruleJSON = Inr (calls, None)"
  shows "\<exists>rules locs acts p calls1 calls2.
           parseRuleList env ruleJSON = Inr rules
         \<and> serializeActions (typeByte env) (pendingIterationOrder env) rules = Inr (locs, acts)
         \<and> partitionRules env locs initialPartition 0 rules = Inr (Inr p)
         \<and> compileFilters env WriteFiltersWithoutConditionsBytecode
              (universalActionsWithoutConditions p) (filtersWithoutConditions p) [WriteActions acts] = Inr calls1
         \<and> compileFilters env WriteFiltersWithConditionsBytecode
              (universalActionsWithConditions p) (filtersWithConditions p) calls1 = Inr calls2
         \<and> calls = calls2 @ compileConditionFilters env (conditionFilters p) @ [Finalize]"
  using assms unfolding compileRuleList_def
  by (simp split: sum.splits prod.splits)

text \<open>
  Claim C7. On every successful compilation the sink receives \<open>writeActions\<close> once,
  then the calls to \<open>writeFiltersWithoutConditionsBytecode\<close> (at least one), then the
  calls to \<open>writeFiltersWithConditionsBytecode\<close> (at least one), then the calls to
  \<open>writeConditionedFiltersBytecode\<close> (maybe none), then \<open>finalize\<close> once: the list
  of calls is the concatenation of these five blocks, so no call of an earlier kind follows
  one of a later kind.
\<close>

theorem sink_call_order:
  assumes "compileRuleList env ruleJSON = Inr (calls, None)"
  shows "\<exists>acts without with conditioned.
           calls = [WriteActions acts]
                   @ map WriteFiltersWithoutConditionsBytecode without
                   @ map WriteFiltersWithConditionsBytecode with
                   @ map WriteConditionedFiltersBytecode conditioned
                   @ [Finalize]
           \<and> without \<noteq> [] \<and> with \<noteq> []"
proof -
  from compileRuleList_success [OF assms] obtain acts and p :: PartitionState and calls1 calls2 where
    c1: "compileFilters env WriteFiltersWithoutConditionsBytecode
            (universalActionsWithoutConditions p) (filtersWithoutConditions p) [WriteActions acts] = Inr calls1"
    and c2: "compileFilters env WriteFiltersWithConditionsBytecode
            (universalActionsWithConditions p) (filtersWithConditions p) calls1 = Inr calls2"
    and c: "calls = calls2 @ compileConditionFilters env (conditionFilters p) @ [Finalize]"
    by blast
  from compileFilters_Inr [OF c1] obtain bs1 where
    1: "calls1 = [WriteActions acts] @ map WriteFiltersWithoutConditionsBytecode bs1" "bs1 \<noteq> []" by blast
  from compileFilters_Inr [OF c2] obtain bs2 where
    2: "calls2 = calls1 @ map WriteFiltersWithConditionsBytecode bs2" "bs2 \<noteq> []" by blast
  let ?bs3 = "map (\<lambda>nfa. compile env (convert env nfa)) (processNFAs env (conditionFilters p) maxNFASize)"
  have "calls = [WriteActions acts] @ map WriteFiltersWithoutConditionsBytecode bs1
                  @ map WriteFiltersWithConditionsBytecode bs2
                  @ map WriteConditionedFiltersBytecode ?bs3 @ [Finalize]"
    using c 1 2 by (simp add: comp_def compileConditionFilters_def)
  with 1 2 show ?thesis by blast
qed


lemma iteratesAll_Nil: "iteratesAll order \<Longrightarrow> order [] = []"
  unfolding iteratesAll_def by (drule spec [where x = "[]"]) simp

lemma iteratesAll_rev: "iteratesAll rev"
  by (simp add: iteratesAll_def)

text \<open>
  The compilation of one rule that blocks the pattern \<open>a\<close> succeeds, and its calls
  have this shape.
\<close>

theorem sink_call_order_witness:
  "compileRuleList exampleCollaborators [exampleRule BlockLoad [97] 0 [] []]
     = Inr ([WriteActions [0], WriteFiltersWithoutConditionsBytecode [1],
             WriteFiltersWithConditionsBytecode [1], Finalize], None)
   \<and> (\<exists>acts without with conditioned.
          [WriteActions [0], WriteFiltersWithoutConditionsBytecode [1],
           WriteFiltersWithConditionsBytecode [1], Finalize]
            = [WriteActions acts]
              @ map WriteFiltersWithoutConditionsBytecode without
              @ map WriteFiltersWithConditionsBytecode with
              @ map WriteConditionedFiltersBytecode conditioned
              @ [Finalize]
          \<and> without \<noteq> [] \<and> with \<noteq> [])"
proof -
  have h: "compileRuleList exampleCollaborators [exampleRule BlockLoad [97] 0 [] []]
     = Inr ([WriteActions [0], WriteFiltersWithoutConditionsBytecode [1],
             WriteFiltersWithConditionsBytecode [1], Finalize], None)"
    by (simp add: example_defs serializer_defs compiler_defs)
  show ?thesis using h sink_call_order [OF h] by (rule conjI)
qed


lemma filter_isConditioned_map [simp]:
  "filter isConditionedFiltersCall (map WriteFiltersWithoutConditionsBytecode bs) = []"
  "filter isConditionedFiltersCall (map WriteFiltersWithConditionsBytecode bs) = []"
  "filter isConditionedFiltersCall (map WriteConditionedFiltersBytecode bs) = map WriteConditionedFiltersBytecode bs"
  by (induction bs) auto

text \<open>
  Claim C5, as the code has it. Every successful compilation writes at least one bytecode
  chunk to the stream of filters without conditions and at least one to the stream of
  filters with conditions (the dummy DFA is compiled when no DFA was lowered). The
  domain-condition stream has no dummy: it receives one chunk for each NFA that
  \<open>processNFAs\<close> hands out for the condition filters, and nothing else.
\<close>

theorem chunks_per_stream:
  assumes "compileRuleList env ruleJSON = Inr (calls, None)"
  shows "(\<exists>b. WriteFiltersWithoutConditionsBytecode b \<in> set calls)
       \<and> (\<exists>b. WriteFiltersWithConditionsBytecode b \<in> set calls)
       \<and> (\<exists>rules locs acts p.
             parseRuleList env ruleJSON = Inr rules
           \<and> serializeActions (typeByte env) (pendingIterationOrder env) rules = Inr (locs, acts)
           \<and> partitionRules env locs initialPartition 0 rules = Inr (Inr p)
           \<and> filter isConditionedFiltersCall calls
               = map (\<lambda>nfa. WriteConditionedFiltersBytecode (compile env (convert env nfa)))
                   (processNFAs env (conditionFilters p) maxNFASize))"
proof -
  from compileRuleList_success [OF assms] obtain rules locs acts and p :: PartitionState
      and calls1 calls2 where
    pr: "parseRuleList env ruleJSON = Inr rules"
    and se: "serializeActions (typeByte env) (pendingIterationOrder env) rules = Inr (locs, acts)"
    and pa: "partitionRules env locs initialPartition 0 rules = Inr (Inr p)"
    and c1: "compileFilters env WriteFiltersWithoutConditionsBytecode
            (universalActionsWithoutConditions p) (filtersWithoutConditions p) [WriteActions acts] = Inr calls1"
    and c2: "compileFilters env WriteFiltersWithConditionsBytecode
            (universalActionsWithConditions p) (filtersWithConditions p) calls1 = Inr calls2"
    and c: "calls = calls2 @ compileConditionFilters env (conditionFilters p) @ [Finalize]"
    by blast
  from compileFilters_Inr [OF c1] obtain bs1 where
    1: "calls1 = [WriteActions acts] @ map WriteFiltersWithoutConditionsBytecode bs1" "bs1 \<noteq> []" by blast
  from compileFilters_Inr [OF c2] obtain bs2 where
    2: "calls2 = calls1 @ map WriteFiltersWithConditionsBytecode bs2" "bs2 \<noteq> []" by blast
  from 1 obtain b1 where "b1 \<in> set bs1" by (cases bs1) auto
  with 1 2 c have a: "WriteFiltersWithoutConditionsBytecode b1 \<in> set calls" by simp
  from 2 obtain b2 where "b2 \<in> set bs2" by (cases bs2) auto
  with 1 2 c have b: "WriteFiltersWithConditionsBytecode b2 \<in> set calls" by simp
  have "filter isConditionedFiltersCall calls
          = map (\<lambda>nfa. WriteConditionedFiltersBytecode (compile env (convert env nfa)))
                   (processNFAs env (conditionFilters p) maxNFASize)"
    using 1 2 c by (simp add: compileConditionFilters_def flip: map_map)
  with pr se pa a b show ?thesis by blast
qed

text \<open>
  The compilation of one rule that blocks the pattern \<open>a\<close> succeeds and writes a
  chunk of filters without conditions.
\<close>

theorem chunks_per_stream_witness:
  "compileRuleList exampleCollaborators [exampleRule BlockLoad [97] 0 [] []]
     = Inr ([WriteActions [0], WriteFiltersWithoutConditionsBytecode [1],
             WriteFiltersWithConditionsBytecode [1], Finalize], None)
   \<and> (\<exists>b. WriteFiltersWithoutConditionsBytecode b
             \<in> set [WriteActions [0], WriteFiltersWithoutConditionsBytecode [1],
                    WriteFiltersWithConditionsBytecode [1], Finalize])"
proof -
  have h: "compileRuleList exampleCollaborators [exampleRule BlockLoad [97] 0 [] []]
     = Inr ([WriteActions [0], WriteFiltersWithoutConditionsBytecode [1],
             WriteFiltersWithConditionsBytecode [1], Finalize], None)"
    by (simp add: example_defs serializer_defs compiler_defs)
  from chunks_per_stream [OF h] have
    "\<exists>b. WriteFiltersWithoutConditionsBytecode b
             \<in> set [WriteActions [0], WriteFiltersWithoutConditionsBytecode [1],
                    WriteFiltersWithConditionsBytecode [1], Finalize]"
    by (rule conjunct1)
  with h show ?thesis by (rule conjI)
qed

text \<open>
  Claim C5 as stated fails: the compilation of one rule without conditions succeeds, and
  the sink receives no call to \<open>writeConditionedFiltersBytecode\<close>, where the
  collaborators make no NFA for condition filters nothing was added to.
\<close>

theorem no_domain_condition_chunk_counterexample:
  "compileRuleList exampleCollaborators [exampleRule BlockLoad [97] 0 [] []]
     = Inr ([WriteActions [0], WriteFiltersWithoutConditionsBytecode [1],
             WriteFiltersWithConditionsBytecode [1], Finalize], None)
   \<and> filter isConditionedFiltersCall
         [WriteActions [0], WriteFiltersWithoutConditionsBytecode [1],
          WriteFiltersWithConditionsBytecode [1], Finalize] = []"
  by (simp add: example_defs serializer_defs compiler_defs)

text \<open>
  Claim C6. For the rule list with no rule, \<open>compileRuleList\<close> returns the empty
  error code; the buffer given to \<open>writeActions\<close> is empty; one chunk, compiled from
  the dummy empty DFA, is written to the stream of filters without conditions and one to
  the stream of filters with conditions; no chunk is written to the domain-condition
  stream. The collaborators are those whose \<open>processNFAs\<close> calls its callback on no
  NFA when no filter was added, and whose combiner calls its callback on no DFA when none
  was added.
\<close>

theorem empty_rule_list:
  assumes "parseRuleList env ruleJSON = Inr []"
    and "iteratesAll (pendingIterationOrder env)"
    and "processNFAs env [] maxNFASize = []"
    and "combineDFAs env [] smallDFASize = []"
  shows "compileRuleList env ruleJSON
           = Inr ([WriteActions [],
                   WriteFiltersWithoutConditionsBytecode (compile env (emptyDFA env)),
                   WriteFiltersWithConditionsBytecode (compile env (emptyDFA env)),
                   Finalize], None)"
proof -
  have s: "serializeActions (typeByte env) (pendingIterationOrder env) [] = Inr ([], [])"
    using iteratesAll_Nil [OF assms(2)]
    by (simp add: serializeActions_def initialState_def resolvePendingDisplayNoneActions_def)
  have f: "compileFilters env wr [] [] calls = Inr (calls @ [wr (compile env (emptyDFA env))])"
    for wr calls
    using assms(3,4) by (simp add: compileFilters_def addUniversalActionsToDFA_def)
  show ?thesis
    using assms(1,3) s
    by (simp add: compileRuleList_def initialPartition_def f compileConditionFilters_def)
qed

text \<open>
  The instance of the collaborators given above meets these hypotheses.
\<close>

theorem empty_rule_list_witness:
  "parseRuleList exampleCollaborators [] = Inr []
   \<and> iteratesAll (pendingIterationOrder exampleCollaborators)
   \<and> processNFAs exampleCollaborators [] maxNFASize = []
   \<and> combineDFAs exampleCollaborators [] smallDFASize = []
   \<and> compileRuleList exampleCollaborators []
       = Inr ([WriteActions [],
               WriteFiltersWithoutConditionsBytecode (compile exampleCollaborators (emptyDFA exampleCollaborators)),
               WriteFiltersWithConditionsBytecode (compile exampleCollaborators (emptyDFA exampleCollaborators)),
               Finalize], None)"
proof -
  have 1: "parseRuleList exampleCollaborators [] = Inr []"
    by (simp add: exampleCollaborators_def)
  have 2: "iteratesAll (pendingIterationOrder exampleCollaborators)"
    by (simp add: exampleCollaborators_def iteratesAll_rev)
  have 3: "processNFAs exampleCollaborators [] maxNFASize = []"
    by (simp add: exampleCollaborators_def)
  have 4: "combineDFAs exampleCollaborators [] smallDFASize = []"
    by (simp add: exampleCollaborators_def)
  from 1 2 3 4 empty_rule_list [OF 1 2 3 4] show ?thesis by blast
qed

subsection \<open>One action location for each rule\<close>

lemma setClientLocations_length:
  "setClientLocations cs loc L = Inr L' \<Longrightarrow> length L' = length L"
  by (induction cs arbitrary: L) (auto split: if_splits)

lemma resolveSlots_length:
  "resolveSlots tb A L slots = Inr (A', L') \<Longrightarrow> length L' = length L"
proof (induction slots arbitrary: A L)
  case Nil
  then show ?case by simp
next
  case (Cons slot slots)
  from Cons.prems obtain L1 where
    1: "setClientLocations (clientLocations (snd slot)) (length A) L = Inr L1"
    and 2: "resolveSlots tb (serializeSelector tb A (combineSelectors emptyBuilder 0 (selectors (snd slot))))
              L1 slots = Inr (A', L')"
    by (auto simp: Let_def split: sum.splits)
  from Cons.IH [OF 2] setClientLocations_length [OF 1] show ?case by simp
qed

lemma resolvePending_length:
  "resolvePendingDisplayNoneActions tb ord A L m = Inr (A', L', m') \<Longrightarrow> length L' = length L"
  by (auto simp: resolvePendingDisplayNoneActions_def split: sum.splits dest: resolveSlots_length)

lemma clearMaps_length:
  "clearMaps tb ord st ty = Inr st' \<Longrightarrow> length (actionLocations st') = length (actionLocations st)"
  by (auto simp: clearMaps_def split: sum.splits if_splits dest: resolvePending_length)

lemma assignActionLocation_length:
  "assignActionLocation tb st rule = Inr st'
    \<Longrightarrow> length (actionLocations st') = Suc (length (actionLocations st))"
  by (auto simp: assignActionLocation_def Let_def split: if_splits ActionType.splits prod.splits)

lemma serializeRule_length:
  "serializeRule tb ord st rule = Inr st'
    \<Longrightarrow> length (actionLocations st') = Suc (length (actionLocations st))"
  by (auto simp: serializeRule_def split: sum.splits
      dest!: clearMaps_length assignActionLocation_length)

lemma serializeRules_length:
  "serializeRules tb ord st rules = Inr st'
    \<Longrightarrow> length (actionLocations st') = length (actionLocations st) + length rules"
proof (induction rules arbitrary: st)
  case Nil
  then show ?case by simp
next
  case (Cons rule rules)
  from Cons.prems obtain st1 where
    1: "serializeRule tb ord st rule = Inr st1" and 2: "serializeRules tb ord st1 rules = Inr st'"
    by (auto split: sum.splits)
  from Cons.IH [OF 2] serializeRule_length [OF 1] show ?case by simp
qed

lemma serializeActions_length:
  assumes "serializeActions tb ord rules = Inr (locs, acts)"
  shows "length locs = length rules"
proof -
  from assms obtain st m where
    1: "serializeRules tb ord initialState rules = Inr st"
    and 2: "resolvePendingDisplayNoneActions tb ord (actions st) (actionLocations st)
              (cssDisplayNoneActionsMap st) = Inr (acts, locs, m)"
    by (auto simp: serializeActions_def split: sum.splits)
  from serializeRules_length [OF 1] resolvePending_length [OF 2] show ?thesis
    by (simp add: initialState_def)
qed

subsection \<open>Universal actions\<close>

lemma iteratesAll_length: "iteratesAll order \<Longrightarrow> length (order xs) = length xs"
  unfolding iteratesAll_def by (metis size_mset)

lemma addUniversalActionsToDFA_too_many:
  assumes "iteratesAll order" and "65535 \<le> length ua"
  shows "\<exists>f. addUniversalActionsToDFA order dfa ua = Inl f"
proof -
  from assms(2) have "ua \<noteq> []" by auto
  then show ?thesis
    using assms by (simp add: addUniversalActionsToDFA_def Let_def iteratesAll_length)
qed

lemma lowerDFAToBytecode_too_many:
  assumes "iteratesAll (universalIterationOrder env)" and "65535 \<le> length ua"
    and "\<not> firstNFASeen st"
  shows "\<exists>f. lowerDFAToBytecode env wr ua st dfa = Inl f"
  using addUniversalActionsToDFA_too_many [OF assms(1,2), of dfa] assms(3)
  by (auto simp: lowerDFAToBytecode_def)

lemma handleNFAs_too_many:
  assumes "iteratesAll (universalIterationOrder env)" and "65535 \<le> length ua"
  shows "\<not> firstNFASeen st \<Longrightarrow> handleNFAs env wr ua st nfas = Inr st' \<Longrightarrow> \<not> firstNFASeen st'"
proof (induction nfas arbitrary: st)
  case Nil
  then show ?case by simp
next
  case (Cons nfa nfas)
  show ?case
  proof (cases "graphSize env (convert env nfa) < smallDFASize")
    case True
    with Cons.prems have "handleNFAs env wr ua (st\<lparr>smallDFACombiner := smallDFACombiner st @ [convert env nfa]\<rparr>) nfas = Inr st'"
      by (simp add: Let_def)
    with Cons.IH [of "st\<lparr>smallDFACombiner := smallDFACombiner st @ [convert env nfa]\<rparr>"] Cons.prems(1)
    show ?thesis by simp
  next
    case False
    from lowerDFAToBytecode_too_many [OF assms Cons.prems(1)] obtain f where
      "lowerDFAToBytecode env wr ua st (minimize env (convert env nfa)) = Inl f" by blast
    with False Cons.prems(2) show ?thesis by (simp add: Let_def)
  qed
qed

lemma lowerDFAs_too_many:
  assumes "iteratesAll (universalIterationOrder env)" and "65535 \<le> length ua"
    and "\<not> firstNFASeen st" and "lowerDFAs env wr ua st dfas = Inr st'"
  shows "\<not> firstNFASeen st'"
proof (cases dfas)
  case Nil
  with assms show ?thesis by simp
next
  case (Cons dfa dfas')
  from lowerDFAToBytecode_too_many [OF assms(1,2,3)] obtain f where
    "lowerDFAToBytecode env wr ua st dfa = Inl f" by blast
  with Cons assms(4) show ?thesis by simp
qed

lemma compileFilters_too_many:
  assumes "iteratesAll (universalIterationOrder env)" and "65535 \<le> length ua"
  shows "\<exists>f. compileFilters env wr ua filters calls = Inl f"
proof (rule ccontr)
  assume "\<not> (\<exists>f. compileFilters env wr ua filters calls = Inl f)"
  then obtain calls' where c: "compileFilters env wr ua filters calls = Inr calls'"
    by (cases "compileFilters env wr ua filters calls") auto
  then obtain st1 st2 where
    h: "handleNFAs env wr ua \<lparr>client = calls, firstNFASeen = False, smallDFACombiner = []\<rparr>
          (processNFAs env filters maxNFASize) = Inr st1"
    and l: "lowerDFAs env wr ua st1 (combineDFAs env (smallDFACombiner st1) smallDFASize) = Inr st2"
    and r: "(if \<not> firstNFASeen st2
             then (case addUniversalActionsToDFA (universalIterationOrder env) (emptyDFA env) ua of
                     Inl f \<Rightarrow> Inl f
                   | Inr dummyDFA \<Rightarrow> Inr (client st2 @ [wr (compile env dummyDFA)]))
             else Inr (client st2)) = Inr calls'"
    unfolding compileFilters_def by (simp split: sum.splits)
  from handleNFAs_too_many [OF assms _ h] have "\<not> firstNFASeen st1" by simp
  from lowerDFAs_too_many [OF assms this l] have "\<not> firstNFASeen st2" .
  with r addUniversalActionsToDFA_too_many [OF assms, of "emptyDFA env"] show False
    by auto
qed

text \<open>
  Claim C8. Universal actions are attached to the root of a DFA with a 16-bit length.
  Whenever they are attached, their number fits in 16 bits and is the length stored at
  the root. When the number does not fit (indeed from 65535 on), \<open>addUniversalActionsToDFA\<close>
  hits the fatal assertion \<open>Too many uncombined actions that match everything\<close>, and the
  stream of filters it belongs to ends in a crash, not in an error code. When the number
  is below 65535 the fatal branch is not taken.
\<close>

theorem universal_actions_length:
  assumes "iteratesAll (universalIterationOrder env)"
    and "universalActions \<noteq> []"
    and "root dfa < length (nodes dfa)"
  shows "(\<forall>dfa'. addUniversalActionsToDFA (universalIterationOrder env) dfa universalActions = Inr dfa' \<longrightarrow>
            length universalActions < 2 ^ 16
          \<and> unat (actionsLength (nodes dfa' ! root dfa')) = length universalActions
          \<and> actionsStart (nodes dfa' ! root dfa') = length (dfaActions dfa)
          \<and> dfaActions dfa' = dfaActions dfa @ universalIterationOrder env universalActions)
       \<and> (65535 \<le> length universalActions \<longrightarrow>
            addUniversalActionsToDFA (universalIterationOrder env) dfa universalActions
              = Inl TooManyUniversalActions
          \<and> (\<forall>wr filters calls. \<exists>f. compileFilters env wr universalActions filters calls = Inl f))
       \<and> (length universalActions < 65535 \<longrightarrow>
            (\<exists>dfa'. addUniversalActionsToDFA (universalIterationOrder env) dfa universalActions = Inr dfa'))"
proof (intro conjI impI allI)
  fix dfa'
  assume r: "addUniversalActionsToDFA (universalIterationOrder env) dfa universalActions = Inr dfa'"
  with assms have small: "length universalActions < 65535"
    by (simp add: addUniversalActionsToDFA_def Let_def iteratesAll_length split: if_splits)
  then show "length universalActions < 2 ^ 16" by simp
  have u: "unat (of_nat (length universalActions) :: 16 word) = length universalActions"
    using small by (simp add: unat_of_nat)
  from r assms small have d: "dfa' = dfa\<lparr>dfaActions := dfaActions dfa @ universalIterationOrder env universalActions,
                          nodes := (nodes dfa)[root dfa :=
                                      setActions (nodes dfa ! root dfa) (length (dfaActions dfa))
                                        (of_nat (length universalActions))]\<rparr>"
    by (simp add: addUniversalActionsToDFA_def Let_def iteratesAll_length)
  from d assms(3) u show "unat (actionsLength (nodes dfa' ! root dfa')) = length universalActions"
    by (simp add: setActions_def)
  from d assms(3) show "actionsStart (nodes dfa' ! root dfa') = length (dfaActions dfa)"
    by (simp add: setActions_def)
  from d show "dfaActions dfa' = dfaActions dfa @ universalIterationOrder env universalActions"
    by simp
next
  assume "65535 \<le> length universalActions"
  with assms show "addUniversalActionsToDFA (universalIterationOrder env) dfa universalActions
              = Inl TooManyUniversalActions"
    by (simp add: addUniversalActionsToDFA_def Let_def iteratesAll_length)
next
  fix wr filters calls
  assume "65535 \<le> length universalActions"
  from compileFilters_too_many [OF assms(1) this]
  show "\<exists>f. compileFilters env wr universalActions filters calls = Inl f" .
next
  assume "length universalActions < 65535"
  with assms show "\<exists>dfa'. addUniversalActionsToDFA (universalIterationOrder env) dfa universalActions = Inr dfa'"
    by (simp add: addUniversalActionsToDFA_def Let_def iteratesAll_length)
qed

subsection \<open>Pattern errors\<close>

lemma addToSet_length: "length (addToSet s w) \<le> Suc (length s)"
  by (simp add: addToSet_def)

lemma partitionRule_fails:
  assumes "failsToParse env rule" and "ruleIndex < length locs"
  shows "partitionRule env locs st ruleIndex rule = Inr (Inl JSONInvalidRegex)"
  using assms
  by (cases "patternStatus env (urlFilter (trigger rule)) (urlFilterIsCaseSensitive (trigger rule))")
     (simp_all add: partitionRule_def failsToParse_def addPattern_def Let_def)

lemma partitionRule_passes:
  assumes "\<not> failsToParse env rule" and "ruleIndex < length locs"
  shows "\<exists>st'. partitionRule env locs st ruleIndex rule = Inr (Inr st')
           \<and> length (universalActionsWithoutConditions st') \<le> Suc (length (universalActionsWithoutConditions st))
           \<and> length (universalActionsWithConditions st') \<le> Suc (length (universalActionsWithConditions st))"
  using assms
  by (cases "patternStatus env (urlFilter (trigger rule)) (urlFilterIsCaseSensitive (trigger rule))")
     (simp_all add: partitionRule_def failsToParse_def addPattern_def Let_def addToSet_length)

lemma partitionRules_fails:
  "\<exists>r \<in> set rules. failsToParse env r \<Longrightarrow> ruleIndex + length rules \<le> length locs
    \<Longrightarrow> partitionRules env locs st ruleIndex rules = Inr (Inl JSONInvalidRegex)"
proof (induction rules arbitrary: st ruleIndex)
  case Nil
  then show ?case by simp
next
  case (Cons rule rules)
  from Cons.prems(2) have i: "ruleIndex < length locs" by simp
  show ?case
  proof (cases "failsToParse env rule")
    case True
    from partitionRule_fails [OF True i] show ?thesis by simp
  next
    case False
    from partitionRule_passes [OF False i] obtain st' where
      s: "partitionRule env locs st ruleIndex rule = Inr (Inr st')" by blast
    from False Cons.prems(1) have "\<exists>r \<in> set rules. failsToParse env r" by auto
    from Cons.IH [OF this, of "Suc ruleIndex" st'] Cons.prems(2) s show ?thesis by simp
  qed
qed

lemma partitionRules_passes:
  "\<forall>r \<in> set rules. \<not> failsToParse env r \<Longrightarrow> ruleIndex + length rules \<le> length locs
    \<Longrightarrow> \<exists>p. partitionRules env locs st ruleIndex rules = Inr (Inr p)
           \<and> length (universalActionsWithoutConditions p)
                \<le> length (universalActionsWithoutConditions st) + length rules
           \<and> length (universalActionsWithConditions p)
                \<le> length (universalActionsWithConditions st) + length rules"
proof (induction rules arbitrary: st ruleIndex)
  case Nil
  then show ?case by simp
next
  case (Cons rule rules)
  from Cons.prems have i: "ruleIndex < length locs" and f: "\<not> failsToParse env rule" by simp_all
  from partitionRule_passes [OF f i] obtain st' where
    s: "partitionRule env locs st ruleIndex rule = Inr (Inr st')"
    and a: "length (universalActionsWithoutConditions st') \<le> Suc (length (universalActionsWithoutConditions st))"
    and b: "length (universalActionsWithConditions st') \<le> Suc (length (universalActionsWithConditions st))"
    by blast
  from Cons.prems have "\<forall>r \<in> set rules. \<not> failsToParse env r" "Suc ruleIndex + length rules \<le> length locs"
    by simp_all
  from Cons.IH [OF this, of st'] obtain p where
    "partitionRules env locs st' (Suc ruleIndex) rules = Inr (Inr p)"
    "length (universalActionsWithoutConditions p) \<le> length (universalActionsWithoutConditions st') + length rules"
    "length (universalActionsWithConditions p) \<le> length (universalActionsWithConditions st') + length rules"
    by blast
  with s a b show ?case by simp
qed

lemma addUniversalActionsToDFA_total:
  assumes "iteratesAll order" and "length ua < 65535" and "rootInRange dfa"
  shows "\<exists>dfa'. addUniversalActionsToDFA order dfa ua = Inr dfa'"
  using assms by (simp add: addUniversalActionsToDFA_def Let_def iteratesAll_length rootInRange_def)

lemma lowerDFAToBytecode_total:
  assumes "iteratesAll (universalIterationOrder env)" and "length ua < 65535"
    and "rootInRange dfa"
  shows "\<exists>st'. lowerDFAToBytecode env wr ua st dfa = Inr st'"
  using addUniversalActionsToDFA_total [OF assms]
  by (auto simp: lowerDFAToBytecode_def)

lemma handleNFAs_total:
  assumes "iteratesAll (universalIterationOrder env)" and "length ua < 65535" and "rootsInRange env"
  shows "\<forall>dfa \<in> set (smallDFACombiner st). rootInRange dfa
          \<Longrightarrow> \<exists>st'. handleNFAs env wr ua st nfas = Inr st'
                  \<and> (\<forall>dfa \<in> set (smallDFACombiner st'). rootInRange dfa)"
proof (induction nfas arbitrary: st)
  case Nil
  then show ?case by simp
next
  case (Cons nfa nfas)
  from assms(3) have c: "rootInRange (convert env nfa)"
    and m: "rootInRange (minimize env (convert env nfa))"
    by (simp_all add: rootsInRange_def)
  show ?case
  proof (cases "graphSize env (convert env nfa) < smallDFASize")
    case True
    from Cons.prems c
    have "\<forall>dfa \<in> set (smallDFACombiner (st\<lparr>smallDFACombiner := smallDFACombiner st @ [convert env nfa]\<rparr>)).
            rootInRange dfa" by simp
    from Cons.IH [OF this] True show ?thesis by (simp add: Let_def)
  next
    case False
    from lowerDFAToBytecode_total [OF assms(1,2) m] obtain st1 where
      l: "lowerDFAToBytecode env wr ua st (minimize env (convert env nfa)) = Inr st1" by blast
    from lowerDFAToBytecode_Inr(3) [OF l] Cons.prems
    have "\<forall>dfa \<in> set (smallDFACombiner st1). rootInRange dfa" by simp
    from Cons.IH [OF this] l False show ?thesis by (simp add: Let_def)
  qed
qed

lemma lowerDFAs_total:
  assumes "iteratesAll (universalIterationOrder env)" and "length ua < 65535"
  shows "\<forall>dfa \<in> set dfas. rootInRange dfa
           \<Longrightarrow> \<exists>st'. lowerDFAs env wr ua st dfas = Inr st'"
proof (induction dfas arbitrary: st)
  case Nil
  show ?case by simp
next
  case (Cons dfa dfas)
  from Cons.prems have "rootInRange dfa" by simp
  from lowerDFAToBytecode_total [OF assms this] obtain st1 where
    "lowerDFAToBytecode env wr ua st dfa = Inr st1" by blast
  with Cons show ?case by simp
qed

lemma compileFilters_total:
  assumes "iteratesAll (universalIterationOrder env)" and "length ua < 65535" and "rootsInRange env"
  shows "\<exists>calls'. compileFilters env wr ua filters calls = Inr calls'"
proof -
  have "\<forall>dfa \<in> set (smallDFACombiner
          \<lparr>client = calls, firstNFASeen = False, smallDFACombiner = ([] :: 'c DFA list)\<rparr>). rootInRange dfa"
    by simp
  from handleNFAs_total [OF assms this] obtain st1 where
    h: "handleNFAs env wr ua \<lparr>client = calls, firstNFASeen = False, smallDFACombiner = []\<rparr>
          (processNFAs env filters maxNFASize) = Inr st1"
    and v: "\<forall>dfa \<in> set (smallDFACombiner st1). rootInRange dfa" by blast
  from assms(3) v have "\<forall>dfa \<in> set (combineDFAs env (smallDFACombiner st1) smallDFASize). rootInRange dfa"
    by (simp add: rootsInRange_def)
  from lowerDFAs_total [OF assms(1,2) this] obtain st2 where
    l: "lowerDFAs env wr ua st1 (combineDFAs env (smallDFACombiner st1) smallDFASize) = Inr st2"
    by blast
  from assms(3) have "rootInRange (emptyDFA env)"
    by (simp add: rootsInRange_def)
  from addUniversalActionsToDFA_total [OF assms(1,2) this] obtain d where
    "addUniversalActionsToDFA (universalIterationOrder env) (emptyDFA env) ua = Inr d" by blast
  with h l show ?thesis by (simp add: compileFilters_def)
qed

lemma Finalize_notin_map [simp]:
  "Finalize \<notin> set (map WriteFiltersWithoutConditionsBytecode bs)"
  "Finalize \<notin> set (map WriteFiltersWithConditionsBytecode bs)"
  "Finalize \<notin> set (compileConditionFilters env filters)"
  by (auto simp: compileConditionFilters_def)

lemma rootsInRange_example: "rootsInRange exampleCollaborators"
  by (simp add: rootsInRange_def rootInRange_def exampleCollaborators_def exampleDFA_def)

text \<open>
  Two universal actions are attached to the single node of a DFA; 65535 of them are
  fatal.
\<close>

theorem universal_actions_length_witness:
  "iteratesAll (universalIterationOrder exampleCollaborators)
   \<and> root exampleDFA < length (nodes exampleDFA)
   \<and> (\<exists>dfa'. addUniversalActionsToDFA (universalIterationOrder exampleCollaborators) exampleDFA [7, 9] = Inr dfa'
         \<and> dfaActions dfa' = [9, 7]
         \<and> unat (actionsLength (nodes dfa' ! root dfa')) = 2)
   \<and> addUniversalActionsToDFA (universalIterationOrder exampleCollaborators) exampleDFA (replicate 65535 0)
        = Inl TooManyUniversalActions"
proof -
  have i: "iteratesAll (universalIterationOrder exampleCollaborators)"
    by (simp add: exampleCollaborators_def iteratesAll_rev)
  have r: "root exampleDFA < length (nodes exampleDFA)"
    by (simp add: exampleDFA_def)
  have n: "[7, 9 :: 64 word] \<noteq> []" by simp
  have m: "replicate 65535 (0 :: 64 word) \<noteq> []" by simp
  from universal_actions_length [OF i n r]
  have a: "\<exists>dfa'. addUniversalActionsToDFA (universalIterationOrder exampleCollaborators) exampleDFA [7, 9] = Inr dfa'
         \<and> dfaActions dfa' = [9, 7]
         \<and> unat (actionsLength (nodes dfa' ! root dfa')) = 2"
    by (auto simp: exampleCollaborators_def exampleDFA_def)
  from universal_actions_length [OF i m r]
  have b: "addUniversalActionsToDFA (universalIterationOrder exampleCollaborators) exampleDFA (replicate 65535 0)
        = Inl TooManyUniversalActions"
    by simp
  from i r a b show ?thesis by blast
qed

subsection \<open>Entries of the action buffer\<close>

lemma entryAt_append: "entryAt (pre @ e @ post) (length pre) e"
  by (simp add: entryAt_def)

lemma entryAt_grow:
  assumes "entryAt buffer offset e"
  shows "entryAt (buffer @ appended) offset e"
proof -
  from assms have t: "take (length e) (drop offset buffer) = e" by (simp add: entryAt_def)
  then have "length (take (length e) (drop offset buffer)) = length e" by simp
  then have "length e \<le> length buffer - offset" by simp
  with t show ?thesis by (simp add: entryAt_def)
qed

lemma serializeSelector_append:
  "serializeSelector tb acts selector = acts @ selectorEntry tb selector"
  by (simp add: serializeSelector_def selectorEntry_def Let_def)

lemma selectorEntry_nonempty: "selectorEntry tb selector \<noteq> []"
  by (simp add: serializeSelector_def selectorEntry_def Let_def)

subsection \<open>Flushing the pending selectors\<close>

lemma setClientLocations_correct:
  "\<forall>c \<in> set cs. c < length L
    \<Longrightarrow> \<exists>L'. setClientLocations cs loc L = Inr L' \<and> length L' = length L
           \<and> (\<forall>k < length L. L' ! k = (if k \<in> set cs then loc else L ! k))"
proof (induction cs arbitrary: L)
  case Nil
  then show ?case by simp
next
  case (Cons c cs)
  from Cons.prems have c: "c < length L" and "\<forall>x \<in> set cs. x < length (L[c := loc])" by simp_all
  from Cons.IH [OF this(2)] obtain L' where
    1: "setClientLocations cs loc (L[c := loc]) = Inr L'" and 2: "length L' = length L"
    and 3: "\<forall>k < length L. L' ! k = (if k \<in> set cs then loc else L[c := loc] ! k)"
    by auto
  from 3 c have "\<forall>k < length L. L' ! k = (if k \<in> set (c # cs) then loc else L ! k)"
    by (auto simp: nth_list_update)
  with 1 2 c show ?case by simp
qed

lemma slotClients_Cons:
  "slotClients (slot # slots) = clientLocations (snd slot) @ slotClients slots"
  by (simp add: slotClients_def)

lemma slotClients_Nil [simp]: "slotClients [] = []"
  by (simp add: slotClients_def)

lemma resolveSlots_correct:
  "\<forall>c \<in> set (slotClients slots). c < length L \<Longrightarrow> distinct (slotClients slots)
    \<Longrightarrow> \<exists>A' L'. resolveSlots tb A L slots = Inr (A', L') \<and> length L' = length L
           \<and> (\<exists>appended. A' = A @ appended)
           \<and> (\<forall>k < length L. k \<notin> set (slotClients slots) \<longrightarrow> L' ! k = L ! k)
           \<and> (\<forall>slot \<in> set slots. \<exists>offset. length A \<le> offset \<and> offset < length A'
                  \<and> entryAt A' offset (selectorEntry tb (joinSelectors (selectors (snd slot))))
                  \<and> (\<forall>c \<in> set (clientLocations (snd slot)). L' ! c = offset))"
proof (induction slots arbitrary: A L)
  case Nil
  then show ?case by simp
next
  case (Cons slot slots)
  let ?e = "selectorEntry tb (joinSelectors (selectors (snd slot)))"
  let ?cs = "clientLocations (snd slot)"
  from Cons.prems have cs: "\<forall>c \<in> set ?cs. c < length L"
    and rest: "\<forall>c \<in> set (slotClients slots). c < length L"
    and d: "distinct (slotClients slots)" and disj: "set ?cs \<inter> set (slotClients slots) = {}"
    by (auto simp: slotClients_Cons)
  from setClientLocations_correct [OF cs, of "length A"] obtain L1 where
    s: "setClientLocations ?cs (length A) L = Inr L1" and l1: "length L1 = length L"
    and n1: "\<forall>k < length L. L1 ! k = (if k \<in> set ?cs then length A else L ! k)"
    by blast
  from rest l1 have "\<forall>c \<in> set (slotClients slots). c < length L1" by simp
  from Cons.IH [OF this d, of "A @ ?e"] obtain A' L' appended where
    r: "resolveSlots tb (A @ ?e) L1 slots = Inr (A', L')" and l': "length L' = length L1"
    and a': "A' = (A @ ?e) @ appended"
    and keep: "\<forall>k < length L1. k \<notin> set (slotClients slots) \<longrightarrow> L' ! k = L1 ! k"
    and slots: "\<forall>slot \<in> set slots. \<exists>offset. length (A @ ?e) \<le> offset \<and> offset < length A'
                  \<and> entryAt A' offset (selectorEntry tb (joinSelectors (selectors (snd slot))))
                  \<and> (\<forall>c \<in> set (clientLocations (snd slot)). L' ! c = offset)"
    by blast
  have res: "resolveSlots tb A L (slot # slots) = Inr (A', L')"
    using s r by (simp add: Let_def serializeSelector_append joinSelectors_def)
  have len: "length L' = length L" using l' l1 by simp
  have grow: "\<exists>appended. A' = A @ appended" using a' by simp
  have keep': "\<forall>k < length L. k \<notin> set (slotClients (slot # slots)) \<longrightarrow> L' ! k = L ! k"
    using keep n1 l1 by (simp add: slotClients_Cons)
  have head: "\<exists>offset. length A \<le> offset \<and> offset < length A'
                  \<and> entryAt A' offset ?e \<and> (\<forall>c \<in> set ?cs. L' ! c = offset)"
  proof (intro exI [of _ "length A"] conjI ballI)
    show "length A \<le> length A" by simp
    show "length A < length A'" using a' selectorEntry_nonempty [of tb] by (cases ?e) auto
    show "entryAt A' (length A) ?e" using a' entryAt_append [of A ?e appended] by simp
    fix c assume c: "c \<in> set ?cs"
    with disj have "c \<notin> set (slotClients slots)" by auto
    with keep cs c l1 have "L' ! c = L1 ! c" by simp
    with n1 cs c show "L' ! c = length A" by simp
  qed
  have tail: "\<forall>slot' \<in> set slots. \<exists>offset. length A \<le> offset \<and> offset < length A'
                  \<and> entryAt A' offset (selectorEntry tb (joinSelectors (selectors (snd slot'))))
                  \<and> (\<forall>c \<in> set (clientLocations (snd slot')). L' ! c = offset)"
  proof
    fix slot' assume "slot' \<in> set slots"
    with slots obtain offset where "length (A @ ?e) \<le> offset" "offset < length A'"
      "entryAt A' offset (selectorEntry tb (joinSelectors (selectors (snd slot'))))"
      "\<forall>c \<in> set (clientLocations (snd slot')). L' ! c = offset" by blast
    then show "\<exists>offset. length A \<le> offset \<and> offset < length A'
                  \<and> entryAt A' offset (selectorEntry tb (joinSelectors (selectors (snd slot'))))
                  \<and> (\<forall>c \<in> set (clientLocations (snd slot')). L' ! c = offset)"
      by (intro exI [of _ offset]) simp
  qed
  from res len grow keep' head tail show ?case by auto
qed

lemma slotClients_mset:
  "mset slots' = mset slots \<Longrightarrow> mset (slotClients slots') = mset (slotClients slots)"
proof -
  have "mset (slotClients s) = (\<Sum>slot \<in># mset s. mset (clientLocations (snd slot)))" for s
    by (induction s) (simp_all add: slotClients_Cons)
  then show "mset slots' = mset slots \<Longrightarrow> mset (slotClients slots') = mset (slotClients slots)"
    by simp
qed

lemma resolvePending_correct:
  assumes "iteratesAll order"
    and "\<forall>c \<in> set (slotClients P). c < length L" and "distinct (slotClients P)"
  shows "\<exists>A' L'. resolvePendingDisplayNoneActions tb order A L P = Inr (A', L', [])
           \<and> length L' = length L
           \<and> (\<exists>appended. A' = A @ appended)
           \<and> (\<forall>k < length L. k \<notin> set (slotClients P) \<longrightarrow> L' ! k = L ! k)
           \<and> (\<forall>slot \<in> set P. \<exists>offset. length A \<le> offset \<and> offset < length A'
                  \<and> entryAt A' offset (selectorEntry tb (joinSelectors (selectors (snd slot))))
                  \<and> (\<forall>c \<in> set (clientLocations (snd slot)). L' ! c = offset))"
proof -
  from assms(1) have m: "mset (order P) = mset P" by (simp add: iteratesAll_def)
  from slotClients_mset [OF m] have mc: "mset (slotClients (order P)) = mset (slotClients P)" .
  from mc have sc: "set (slotClients (order P)) = set (slotClients P)" by (rule mset_eq_setD)
  from mc assms(3) have d: "distinct (slotClients (order P))"
    by (metis mset_eq_imp_distinct_iff)
  from m have sp: "set (order P) = set P" by (rule mset_eq_setD)
  from assms(2) sc have "\<forall>c \<in> set (slotClients (order P)). c < length L" by simp
  from resolveSlots_correct [OF this d, of tb A] sc sp show ?thesis
    by (auto simp: resolvePendingDisplayNoneActions_def)
qed

subsection \<open>The pending map\<close>

lemma addPending_keys: "set (map fst (addPending P t s c)) = insert t (set (map fst P))"
  by (induction P) force+

lemma addPending_distinct: "distinct (map fst P) \<Longrightarrow> distinct (map fst (addPending P t s c))"
proof (induction P)
  case Nil
  then show ?case by simp
next
  case (Cons slot P)
  obtain t' p where slot: "slot = (t', p)" by (cases slot)
  from Cons slot show ?case
    using addPending_keys [of P t s c] by auto
qed

lemma addPending_clients: "mset (slotClients (addPending P t s c)) = mset (slotClients P) + {#c#}"
proof (induction P)
  case Nil
  then show ?case by (simp add: slotClients_def)
next
  case (Cons slot P)
  obtain t' p where slot: "slot = (t', p)" by (cases slot)
  from Cons slot show ?case by (simp add: slotClients_Cons)
qed

lemma addPending_clients_set: "set (slotClients (addPending P t s c)) = insert c (set (slotClients P))"
proof -
  have "set_mset (mset (slotClients (addPending P t s c))) = set_mset (mset (slotClients P) + {#c#})"
    by (simp only: addPending_clients)
  then show ?thesis by simp
qed

lemma addPending_clients_distinct:
  assumes "distinct (slotClients P)" and "c \<notin> set (slotClients P)"
  shows "distinct (slotClients (addPending P t s c))"
proof -
  from assms have "distinct (slotClients P @ [c])" by simp
  moreover have "mset (slotClients (addPending P t s c)) = mset (slotClients P @ [c])"
    by (simp add: addPending_clients)
  ultimately show ?thesis by (metis mset_eq_imp_distinct_iff)
qed

lemma map_of_addPending:
  "map_of (addPending P t s c) t' =
     (if t' = t
      then Some \<lparr>selectors = pendingSelectors P t @ [s], clientLocations = pendingClients P t @ [c]\<rparr>
      else map_of P t')"
proof (induction P)
  case Nil
  then show ?case by (simp add: pendingSelectors_def pendingClients_def)
next
  case (Cons slot P)
  obtain t'' p where slot: "slot = (t'', p)" by (cases slot)
  from Cons slot show ?case by (auto simp: pendingSelectors_def pendingClients_def)
qed

lemma pendingSelectors_addPending:
  "pendingSelectors (addPending P t s c) t' =
     (if t' = t then pendingSelectors P t @ [s] else pendingSelectors P t')"
  by (simp add: pendingSelectors_def [of "addPending P t s c"] map_of_addPending)
     (simp add: pendingSelectors_def)

lemma pendingClients_addPending:
  "pendingClients (addPending P t s c) t' =
     (if t' = t then pendingClients P t @ [c] else pendingClients P t')"
  by (simp add: pendingClients_def [of "addPending P t s c"] map_of_addPending)
     (simp add: pendingClients_def)

subsection \<open>The two halves of the loop body\<close>

lemma wellFormed_resolve:
  assumes "wellFormed st" and "iteratesAll order"
  shows "\<exists>A' L'. resolvePendingDisplayNoneActions tb order (actions st) (actionLocations st)
                   (cssDisplayNoneActionsMap st) = Inr (A', L', [])
           \<and> length L' = length (actionLocations st)
           \<and> (\<exists>appended. A' = actions st @ appended)
           \<and> (\<forall>k < length (actionLocations st).
                 k \<notin> set (slotClients (cssDisplayNoneActionsMap st)) \<longrightarrow> L' ! k = actionLocations st ! k)
           \<and> (\<forall>slot \<in> set (cssDisplayNoneActionsMap st).
                 \<exists>offset. length (actions st) \<le> offset \<and> offset < length A'
                  \<and> entryAt A' offset (selectorEntry tb (joinSelectors (selectors (snd slot))))
                  \<and> (\<forall>c \<in> set (clientLocations (snd slot)). L' ! c = offset))"
  using assms resolvePending_correct [of order "cssDisplayNoneActionsMap st" "actionLocations st" tb "actions st"]
  by (simp add: wellFormed_def)

lemma in_slotClients:
  "c \<in> set (slotClients P) \<longleftrightarrow> (\<exists>slot \<in> set P. c \<in> set (clientLocations (snd slot)))"
  by (auto simp: slotClients_def)

lemma clearMaps_other:
  "ty \<noteq> IgnorePreviousRules \<Longrightarrow> clearMaps tb order st ty = Inr (st\<lparr>ignorePreviousRuleActionsMap := Map.empty\<rparr>)"
  by (simp add: clearMaps_def)

lemma clearMaps_ignore:
  assumes "wellFormed st" and "iteratesAll order"
  shows "\<exists>A' L'. resolvePendingDisplayNoneActions tb order (actions st) (actionLocations st)
                   (cssDisplayNoneActionsMap st) = Inr (A', L', [])
           \<and> clearMaps tb order st IgnorePreviousRules
               = Inr (st\<lparr>actions := A', actionLocations := L',
                         blockLoadActionsMap := Map.empty, blockCookiesActionsMap := Map.empty,
                         cssDisplayNoneActionsMap := [], makeHTTPSActionsMap := Map.empty\<rparr>)"
proof -
  from wellFormed_resolve [OF assms, of tb] obtain A' L' where
    "resolvePendingDisplayNoneActions tb order (actions st) (actionLocations st)
       (cssDisplayNoneActionsMap st) = Inr (A', L', [])" by blast
  then show ?thesis by (simp add: clearMaps_def)
qed

lemma clearMaps_wellFormed:
  assumes "wellFormed st" and "iteratesAll order"
  shows "\<exists>st'. clearMaps tb order st ty = Inr st' \<and> wellFormed st' \<and> carries st st'"
proof (cases "ty = IgnorePreviousRules")
  case False
  then show ?thesis using assms(1)
    by (simp add: clearMaps_other wellFormed_def carries_def)
next
  case True
  from wellFormed_resolve [OF assms, of tb] obtain A' L' appended where
    r: "resolvePendingDisplayNoneActions tb order (actions st) (actionLocations st)
          (cssDisplayNoneActionsMap st) = Inr (A', L', [])"
    and l: "length L' = length (actionLocations st)"
    and a: "A' = actions st @ appended"
    and keep: "\<forall>k < length (actionLocations st).
                 k \<notin> set (slotClients (cssDisplayNoneActionsMap st)) \<longrightarrow> L' ! k = actionLocations st ! k"
    and slots: "\<forall>slot \<in> set (cssDisplayNoneActionsMap st).
                 \<exists>offset. length (actions st) \<le> offset \<and> offset < length A'
                  \<and> entryAt A' offset (selectorEntry tb (joinSelectors (selectors (snd slot))))
                  \<and> (\<forall>c \<in> set (clientLocations (snd slot)). L' ! c = offset)"
    by blast
  let ?st' = "st\<lparr>actions := A', actionLocations := L',
                  blockLoadActionsMap := Map.empty, blockCookiesActionsMap := Map.empty,
                  cssDisplayNoneActionsMap := [], makeHTTPSActionsMap := Map.empty\<rparr>"
  have c: "clearMaps tb order st ty = Inr ?st'" using True r by (simp add: clearMaps_def)
  have w: "wellFormed ?st'" by (simp add: wellFormed_def)
  have "carries st ?st'"
    unfolding carries_def
  proof (intro conjI allI impI)
    show "\<exists>appended. actions ?st' = actions st @ appended" using a by simp
    show "length (actionLocations st) \<le> length (actionLocations ?st')" using l by simp
  next
    fix k assume "k < length (actionLocations st)" "k \<notin> set (slotClients (cssDisplayNoneActionsMap st))"
    with keep show "actionLocations ?st' ! k = actionLocations st ! k" by simp
    show "k \<notin> set (slotClients (cssDisplayNoneActionsMap ?st'))" by simp
  next
    fix k assume "k < length (actionLocations st)" and "k \<in> set (slotClients (cssDisplayNoneActionsMap st))"
    then obtain slot where "slot \<in> set (cssDisplayNoneActionsMap st)" "k \<in> set (clientLocations (snd slot))"
      by (auto simp: in_slotClients)
    with slots obtain offset where "length (actions st) \<le> offset" "offset < length A'" "L' ! k = offset"
      by blast
    then show "k \<in> set (slotClients (cssDisplayNoneActionsMap ?st'))
          \<or> (length (actions st) \<le> actionLocations ?st' ! k
              \<and> actionLocations ?st' ! k < length (actions ?st'))" by simp
  qed
  with c w show ?thesis by blast
qed

lemma carries_refl: "carries st st"
  by (simp add: carries_def)

lemma carries_trans:
  assumes "carries st1 st2" and "carries st2 st3"
  shows "carries st1 st3"
  unfolding carries_def
proof (intro conjI allI impI)
  from assms show "\<exists>appended. actions st3 = actions st1 @ appended"
    by (auto simp: carries_def)
  from assms show "length (actionLocations st1) \<le> length (actionLocations st3)"
    by (auto simp: carries_def)
next
  fix k assume k: "k < length (actionLocations st1)"
    and n: "k \<notin> set (slotClients (cssDisplayNoneActionsMap st1))"
  from assms(1) k have k2: "k < length (actionLocations st2)" by (auto simp: carries_def)
  from assms(1) k n have 2: "actionLocations st2 ! k = actionLocations st1 ! k"
    "k \<notin> set (slotClients (cssDisplayNoneActionsMap st2))" by (auto simp: carries_def)
  from assms(2) k2 2 show "actionLocations st3 ! k = actionLocations st1 ! k"
    by (auto simp: carries_def)
  from assms(2) k2 2 show "k \<notin> set (slotClients (cssDisplayNoneActionsMap st3))"
    by (auto simp: carries_def)
next
  fix k assume k: "k < length (actionLocations st1)"
    and n: "k \<in> set (slotClients (cssDisplayNoneActionsMap st1))"
  from assms(1) k have k2: "k < length (actionLocations st2)" by (auto simp: carries_def)
  from assms obtain a1 a2 where a: "actions st2 = actions st1 @ a1" "actions st3 = actions st2 @ a2"
    by (auto simp: carries_def)
  from assms(1) k n consider
      (waits) "k \<in> set (slotClients (cssDisplayNoneActionsMap st2))"
    | (resolved) "k \<notin> set (slotClients (cssDisplayNoneActionsMap st2))"
        "length (actions st1) \<le> actionLocations st2 ! k" "actionLocations st2 ! k < length (actions st2)"
    by (auto simp: carries_def)
  then show "k \<in> set (slotClients (cssDisplayNoneActionsMap st3))
          \<or> (length (actions st1) \<le> actionLocations st3 ! k
              \<and> actionLocations st3 ! k < length (actions st3))"
  proof cases
    case waits
    with assms(2) k2 have "k \<in> set (slotClients (cssDisplayNoneActionsMap st3))
          \<or> (length (actions st2) \<le> actionLocations st3 ! k
              \<and> actionLocations st3 ! k < length (actions st3))"
      by (auto simp: carries_def)
    with a show ?thesis by auto
  next
    case resolved
    with assms(2) k2 have "actionLocations st3 ! k = actionLocations st2 ! k"
      by (auto simp: carries_def)
    with resolved a show ?thesis by auto
  qed
qed

lemma findOrMakeActionLocation_cases:
  assumes "findOrMakeActionLocation tb ty fl m A = (m', A', loc)"
  shows "(m fl = Some loc \<and> m' = m \<and> A' = A)
       \<or> (m fl = None \<and> m' = m(fl \<mapsto> length A) \<and> A' = A @ [tb ty] \<and> loc = length A)"
  using assms by (auto simp: findOrMakeActionLocation_def split: option.splits)

text \<open>What the second half of the loop body does to the arrays, by the kind of rule.\<close>

lemma assign_conditions:
  assumes "conditions (trigger rule) \<noteq> []"
  shows "assignActionLocation tb st rule
     = Inr (st\<lparr>actionLocations := actionLocations st @ [length (actions st)],
               actions := actions st @ (if actionType (action rule) = CSSDisplayNoneSelector
                                        then selectorEntry tb (stringArgument (action rule))
                                        else [tb (actionType (action rule))])\<rparr>)"
  using assms by (simp add: assignActionLocation_def Let_def serializeSelector_append)

lemma assign_selector:
  assumes "conditions (trigger rule) = []" and "actionType (action rule) = CSSDisplayNoneSelector"
  shows "assignActionLocation tb st rule
     = Inr (st\<lparr>cssDisplayNoneActionsMap :=
                 addPending (cssDisplayNoneActionsMap st) (trigger rule)
                   (stringArgument (action rule)) (length (actionLocations st)),
               actionLocations := actionLocations st @ [UINT_MAX]\<rparr>)"
  using assms by (simp add: assignActionLocation_def Let_def)

lemma assign_dedup:
  assumes "conditions (trigger rule) = []" and "dedupType (actionType (action rule))"
  shows "assignActionLocation tb st rule
     = (case dedupMap (actionType (action rule)) st (flags (trigger rule)) of
          Some existing \<Rightarrow> Inr (st\<lparr>actionLocations := actionLocations st @ [existing]\<rparr>)
        | None \<Rightarrow>
            Inr ((setDedupMap (actionType (action rule))
                    ((dedupMap (actionType (action rule)) st)(flags (trigger rule) \<mapsto> length (actions st))) st)
                 \<lparr>actions := actions st @ [tb (actionType (action rule))],
                  actionLocations := actionLocations st @ [length (actions st)]\<rparr>))"
  using assms
  by (auto simp: assignActionLocation_def Let_def dedupType_def dedupMap_def setDedupMap_def
      findOrMakeActionLocation_def split: option.splits)

lemma setDedupMap_fields [simp]:
  "actions (setDedupMap ty m st) = actions st"
  "actionLocations (setDedupMap ty m st) = actionLocations st"
  "cssDisplayNoneActionsMap (setDedupMap ty m st) = cssDisplayNoneActionsMap st"
  by (cases ty; simp add: setDedupMap_def)+

lemma rule_kinds:
  assumes "validRule rule"
  obtains (conditions) "conditions (trigger rule) \<noteq> []"
    | (selector) "conditions (trigger rule) = []" "actionType (action rule) = CSSDisplayNoneSelector"
    | (dedup) "conditions (trigger rule) = []" "dedupType (actionType (action rule))"
  using assms by (cases "actionType (action rule)") (auto simp: validRule_def dedupType_def)

lemma assign_wellFormed:
  assumes "wellFormed st" and "validRule rule"
  shows "\<exists>st'. assignActionLocation tb st rule = Inr st' \<and> wellFormed st' \<and> carries st st'
           \<and> length (actionLocations st') = Suc (length (actionLocations st))"
  using assms(2)
proof (cases rule rule: rule_kinds)
  case conditions
  from assms(1) show ?thesis
    by (simp add: assign_conditions [OF conditions] wellFormed_def carries_def nth_append)
       (auto simp: less_Suc_eq)
next
  case selector
  let ?n = "length (actionLocations st)"
  from assms(1) have n: "?n \<notin> set (slotClients (cssDisplayNoneActionsMap st))"
    by (auto simp: wellFormed_def)
  from assms(1) n show ?thesis
    by (simp add: assign_selector [OF selector] wellFormed_def carries_def nth_append
        addPending_distinct addPending_clients_distinct addPending_clients_set)
       (auto simp: less_Suc_eq)
next
  case dedup
  from assms(1) show ?thesis
    by (cases "dedupMap (actionType (action rule)) st (flags (trigger rule))")
       (auto simp: assign_dedup [OF dedup] wellFormed_def carries_def nth_append less_Suc_eq)
qed

lemma serializeRule_wellFormed:
  assumes "wellFormed st" and "iteratesAll order" and "validRule rule"
  shows "\<exists>st'. serializeRule tb order st rule = Inr st' \<and> wellFormed st' \<and> carries st st'
           \<and> length (actionLocations st') = Suc (length (actionLocations st))"
proof -
  from clearMaps_wellFormed [OF assms(1,2), of tb "actionType (action rule)"] obtain st1 where
    1: "clearMaps tb order st (actionType (action rule)) = Inr st1" "wellFormed st1" "carries st st1"
    by blast
  from assign_wellFormed [OF 1(2) assms(3), of tb] obtain st' where
    2: "assignActionLocation tb st1 rule = Inr st'" "wellFormed st'" "carries st1 st'"
       "length (actionLocations st') = Suc (length (actionLocations st1))"
    by blast
  from clearMaps_length [OF 1(1)] 2(4)
  have "length (actionLocations st') = Suc (length (actionLocations st))" by simp
  with 1 2 carries_trans [OF 1(3) 2(3)] show ?thesis
    by (simp add: serializeRule_def)
qed

lemma serializeRules_wellFormed:
  assumes "iteratesAll order"
  shows "wellFormed st \<Longrightarrow> \<forall>rule \<in> set rules. validRule rule
          \<Longrightarrow> \<exists>st'. serializeRules tb order st rules = Inr st' \<and> wellFormed st' \<and> carries st st'
                 \<and> length (actionLocations st') = length (actionLocations st) + length rules"
proof (induction rules arbitrary: st)
  case Nil
  then show ?case by (simp add: carries_refl)
next
  case (Cons rule rules)
  from Cons.prems have "validRule rule" by simp
  from serializeRule_wellFormed [OF Cons.prems(1) assms this, of tb] obtain st1 where
    1: "serializeRule tb order st rule = Inr st1" "wellFormed st1" "carries st st1"
       "length (actionLocations st1) = Suc (length (actionLocations st))" by blast
  from Cons.prems have "\<forall>rule \<in> set rules. validRule rule" by simp
  from Cons.IH [OF 1(2) this] obtain st' where
    2: "serializeRules tb order st1 rules = Inr st'" "wellFormed st'" "carries st1 st'"
       "length (actionLocations st') = length (actionLocations st1) + length rules" by blast
  from 1 2 carries_trans [OF 1(3) 2(3)] show ?case by simp
qed

subsection \<open>The whole run of the serializer\<close>

lemma serializeActions_final:
  "serializeActions tb order rules =
     (case serializeRules tb order initialState rules of
        Inl f \<Rightarrow> Inl f
      | Inr st \<Rightarrow>
          (case clearMaps tb order st IgnorePreviousRules of
             Inl f \<Rightarrow> Inl f
           | Inr st' \<Rightarrow> Inr (actionLocations st', actions st')))"
  by (simp add: serializeActions_def clearMaps_def split: sum.splits)

lemma serializeRules_append:
  "serializeRules tb order st (xs @ ys) =
     (case serializeRules tb order st xs of
        Inl f \<Rightarrow> Inl f
      | Inr st' \<Rightarrow> serializeRules tb order st' ys)"
  by (induction xs arbitrary: st) (simp_all split: sum.splits)

lemma assign_valid: "assignActionLocation tb st rule = Inr st' \<Longrightarrow> validRule rule"
  by (cases "actionType (action rule)")
     (auto simp: assignActionLocation_def Let_def validRule_def split: if_splits)

lemma serializeRule_valid: "serializeRule tb order st rule = Inr st' \<Longrightarrow> validRule rule"
  by (auto simp: serializeRule_def split: sum.splits dest: assign_valid)

lemma serializeRules_valid:
  "serializeRules tb order st rules = Inr st' \<Longrightarrow> \<forall>rule \<in> set rules. validRule rule"
  by (induction rules arbitrary: st) (auto split: sum.splits dest: serializeRule_valid)

lemma wellFormed_initial: "wellFormed initialState"
  by (simp add: wellFormed_def initialState_def)

lemma serializeActions_valid:
  "serializeActions tb order rules = Inr (locs, acts) \<Longrightarrow> \<forall>rule \<in> set rules. validRule rule"
  by (auto simp: serializeActions_final split: sum.splits dest: serializeRules_valid)

subsection \<open>Action locations are offsets in the buffer\<close>

lemma dedupMap_clear_ignore [simp]:
  "dedupMap ty (st\<lparr>ignorePreviousRuleActionsMap := Map.empty\<rparr>) =
     (if ty = IgnorePreviousRules then Map.empty else dedupMap ty st)"
  by (cases ty) (simp_all add: dedupMap_def)

lemma dedupMap_cleared [simp]:
  "dedupMap ty (st\<lparr>actions := A, actionLocations := L,
                  blockLoadActionsMap := Map.empty, blockCookiesActionsMap := Map.empty,
                  cssDisplayNoneActionsMap := P, makeHTTPSActionsMap := Map.empty\<rparr>) =
     (if ty = IgnorePreviousRules then dedupMap ty st else Map.empty)"
  by (cases ty) (simp_all add: dedupMap_def)

lemma dedupMap_arrays [simp]:
  "dedupMap ty (st\<lparr>actionLocations := L\<rparr>) = dedupMap ty st"
  "dedupMap ty (st\<lparr>actions := A\<rparr>) = dedupMap ty st"
  "dedupMap ty (st\<lparr>cssDisplayNoneActionsMap := P\<rparr>) = dedupMap ty st"
  by (cases ty; simp add: dedupMap_def)+

lemma dedupMap_setDedupMap:
  "dedupType ty \<Longrightarrow> dedupMap ty' (setDedupMap ty m st) = (if ty' = ty then m else dedupMap ty' st)"
  by (cases ty; cases ty'; simp add: dedupMap_def setDedupMap_def dedupType_def)

lemma clearMaps_result:
  assumes "clearMaps tb order st ty = Inr st'"
  shows "(ty \<noteq> IgnorePreviousRules \<and> st' = st\<lparr>ignorePreviousRuleActionsMap := Map.empty\<rparr>)
       \<or> (ty = IgnorePreviousRules \<and>
            (\<exists>A' L'. st' = st\<lparr>actions := A', actionLocations := L',
                               blockLoadActionsMap := Map.empty, blockCookiesActionsMap := Map.empty,
                               cssDisplayNoneActionsMap := [], makeHTTPSActionsMap := Map.empty\<rparr>))"
  using assms by (auto simp: clearMaps_def split: if_splits sum.splits)

lemma clearMaps_run:
  assumes "wellFormed st" and "iteratesAll order" and "clearMaps tb order st ty = Inr st'"
  shows "wellFormed st'" and "carries st st'"
  using clearMaps_wellFormed [OF assms(1,2), of tb ty] assms(3) by auto

lemma assign_run:
  assumes "wellFormed st" and "assignActionLocation tb st rule = Inr st'"
  shows "wellFormed st'" and "carries st st'"
    and "length (actionLocations st') = Suc (length (actionLocations st))"
  using assign_wellFormed [OF assms(1) assign_valid [OF assms(2)], of tb] assms(2) by auto

lemma serializeRule_run:
  assumes "wellFormed st" and "iteratesAll order" and "serializeRule tb order st rule = Inr st'"
  shows "wellFormed st'" and "carries st st'"
    and "length (actionLocations st') = Suc (length (actionLocations st))"
  using serializeRule_wellFormed [OF assms(1,2) serializeRule_valid [OF assms(3)], of tb] assms(3)
  by auto

lemma serializeRules_run:
  assumes "wellFormed st" and "iteratesAll order" and "serializeRules tb order st rules = Inr st'"
  shows "wellFormed st'" and "carries st st'"
    and "length (actionLocations st') = length (actionLocations st) + length rules"
  using serializeRules_wellFormed [OF assms(2,1) serializeRules_valid [OF assms(3)], of tb] assms(3)
  by auto

lemma carries_inBuffer_old:
  assumes "carries st st'" and "inBuffer st" and "k < length (actionLocations st)"
  shows "k \<in> set (slotClients (cssDisplayNoneActionsMap st'))
       \<or> actionLocations st' ! k < length (actions st')"
proof (cases "k \<in> set (slotClients (cssDisplayNoneActionsMap st))")
  case True
  with assms(1,3) show ?thesis by (auto simp: carries_def)
next
  case False
  with assms(2,3) have "actionLocations st ! k < length (actions st)" by (auto simp: inBuffer_def)
  moreover from False assms(1,3) have "actionLocations st' ! k = actionLocations st ! k"
    by (auto simp: carries_def)
  moreover from assms(1) have "length (actions st) \<le> length (actions st')"
    by (auto simp: carries_def)
  ultimately show ?thesis by simp
qed

lemma clearMaps_inBuffer:
  assumes "wellFormed st" and "iteratesAll order" and "inBuffer st"
    and "clearMaps tb order st ty = Inr st'"
  shows "inBuffer st'"
proof -
  from clearMaps_run [OF assms(1,2,4)] have c: "carries st st'" by simp
  from clearMaps_length [OF assms(4)] have l: "length (actionLocations st') = length (actionLocations st)" .
  from c have g: "length (actions st) \<le> length (actions st')" by (auto simp: carries_def)
  have "\<forall>ty fl v. dedupMap ty st' fl = Some v \<longrightarrow> v < length (actions st')"
  proof (intro allI impI)
    fix ty' fl v assume "dedupMap ty' st' fl = Some v"
    with clearMaps_result [OF assms(4)] have "dedupMap ty' st fl = Some v"
      by (auto split: if_splits)
    with assms(3) g show "v < length (actions st')" by (force simp: inBuffer_def)
  qed
  with carries_inBuffer_old [OF c assms(3)] l show ?thesis by (simp add: inBuffer_def)
qed

lemma assign_inBuffer:
  assumes "wellFormed st" and "inBuffer st" and "assignActionLocation tb st rule = Inr st'"
  shows "inBuffer st'"
proof -
  from assign_run [OF assms(1,3)] have c: "carries st st'"
    and l: "length (actionLocations st') = Suc (length (actionLocations st))" by simp_all
  from assms(2) have M: "\<And>ty fl v. dedupMap ty st fl = Some v \<Longrightarrow> v < length (actions st)"
    by (auto simp: inBuffer_def)
  let ?n = "length (actionLocations st)"
  have "(?n \<in> set (slotClients (cssDisplayNoneActionsMap st'))
           \<or> actionLocations st' ! ?n < length (actions st'))
      \<and> (\<forall>ty fl v. dedupMap ty st' fl = Some v \<longrightarrow> v < length (actions st'))"
    using assign_valid [OF assms(3)]
  proof (cases rule rule: rule_kinds)
    case conditions
    let ?e = "if actionType (action rule) = CSSDisplayNoneSelector
              then selectorEntry tb (stringArgument (action rule))
              else [tb (actionType (action rule))]"
    from assms(3) have st': "st' = st\<lparr>actionLocations := actionLocations st @ [length (actions st)],
               actions := actions st @ ?e\<rparr>"
      by (simp add: assign_conditions [OF conditions])
    have e: "?e \<noteq> []" by (simp add: selectorEntry_nonempty)
    have 1: "actionLocations st' ! ?n < length (actions st')"
      using e by (cases ?e) (simp_all add: st')
    have 2: "v < length (actions st')" if "dedupMap ty st' fl = Some v" for ty fl v
    proof -
      from that have "dedupMap ty st fl = Some v" by (simp add: st')
      from M [OF this] show ?thesis by (simp add: st')
    qed
    from 1 2 show ?thesis by blast
  next
    case selector
    from assms(3) have st': "st' = st\<lparr>cssDisplayNoneActionsMap :=
                 addPending (cssDisplayNoneActionsMap st) (trigger rule)
                   (stringArgument (action rule)) (length (actionLocations st)),
               actionLocations := actionLocations st @ [UINT_MAX]\<rparr>"
      by (simp add: assign_selector [OF selector])
    have 1: "?n \<in> set (slotClients (cssDisplayNoneActionsMap st'))"
      by (simp add: st' addPending_clients_set)
    have 2: "v < length (actions st')" if "dedupMap ty st' fl = Some v" for ty fl v
    proof -
      from that have "dedupMap ty st fl = Some v" by (simp add: st')
      from M [OF this] show ?thesis by (simp add: st')
    qed
    from 1 2 show ?thesis by blast
  next
    case dedup
    let ?ty = "actionType (action rule)"
    let ?fl = "flags (trigger rule)"
    show ?thesis
    proof (cases "dedupMap ?ty st ?fl")
      case None
      with assms(3) have st': "st' = (setDedupMap ?ty ((dedupMap ?ty st)(?fl \<mapsto> length (actions st))) st)
                 \<lparr>actions := actions st @ [tb ?ty],
                  actionLocations := actionLocations st @ [length (actions st)]\<rparr>"
        by (simp add: assign_dedup [OF dedup])
      have 1: "actionLocations st' ! ?n < length (actions st')" by (simp add: st')
      have 2: "v < length (actions st')" if "dedupMap ty st' fl = Some v" for ty fl v
      proof -
        from that have "v = length (actions st) \<or> dedupMap ty st fl = Some v"
          by (simp add: st' dedupMap_setDedupMap [OF dedup(2)] split: if_splits)
        with M show ?thesis by (auto simp: st' less_Suc_eq)
      qed
      from 1 2 show ?thesis by blast
    next
      case (Some existing)
      with assms(3) have st': "st' = st\<lparr>actionLocations := actionLocations st @ [existing]\<rparr>"
        by (simp add: assign_dedup [OF dedup])
      from M [OF Some] have 1: "actionLocations st' ! ?n < length (actions st')" by (simp add: st')
      have 2: "v < length (actions st')" if "dedupMap ty st' fl = Some v" for ty fl v
      proof -
        from that have "dedupMap ty st fl = Some v" by (simp add: st')
        from M [OF this] show ?thesis by (simp add: st')
      qed
      from 1 2 show ?thesis by blast
    qed
  qed
  then have new: "?n \<in> set (slotClients (cssDisplayNoneActionsMap st'))
           \<or> actionLocations st' ! ?n < length (actions st')"
    and maps: "\<forall>ty fl v. dedupMap ty st' fl = Some v \<longrightarrow> v < length (actions st')"
    by blast+
  show ?thesis
    unfolding inBuffer_def
  proof (intro conjI allI impI)
    fix k assume "k < length (actionLocations st')"
    with l consider "k < ?n" | "k = ?n" by force
    then show "k \<in> set (slotClients (cssDisplayNoneActionsMap st'))
             \<or> actionLocations st' ! k < length (actions st')"
      using carries_inBuffer_old [OF c assms(2)] new by cases auto
  next
    fix ty fl v assume "dedupMap ty st' fl = Some v"
    with maps show "v < length (actions st')" by blast
  qed
qed

lemma serializeRule_inBuffer:
  assumes "wellFormed st" and "iteratesAll order" and "inBuffer st"
    and "serializeRule tb order st rule = Inr st'"
  shows "inBuffer st'"
proof -
  from assms(4) obtain st1 where
    1: "clearMaps tb order st (actionType (action rule)) = Inr st1"
    and 2: "assignActionLocation tb st1 rule = Inr st'"
    by (auto simp: serializeRule_def split: sum.splits)
  from clearMaps_run(1) [OF assms(1,2) 1] clearMaps_inBuffer [OF assms(1,2,3) 1] 2
  show ?thesis by (rule assign_inBuffer)
qed

lemma serializeRules_inBuffer:
  assumes "iteratesAll order"
  shows "wellFormed st \<Longrightarrow> inBuffer st \<Longrightarrow> serializeRules tb order st rules = Inr st' \<Longrightarrow> inBuffer st'"
proof (induction rules arbitrary: st)
  case Nil
  then show ?case by simp
next
  case (Cons rule rules)
  from Cons.prems(3) obtain st1 where
    1: "serializeRule tb order st rule = Inr st1" and 2: "serializeRules tb order st1 rules = Inr st'"
    by (auto split: sum.splits)
  from serializeRule_run(1) [OF Cons.prems(1) assms 1]
    serializeRule_inBuffer [OF Cons.prems(1) assms Cons.prems(2) 1] 2
  show ?case by (rule Cons.IH)
qed

lemma inBuffer_initial: "inBuffer initialState"
  by (simp add: inBuffer_def initialState_def dedupMap_def split: ActionType.splits)

text \<open>The states of a run: after the rules, and after the last flush.\<close>

lemma serializeActions_states:
  assumes "iteratesAll order" and "serializeActions tb order rules = Inr (locs, acts)"
  obtains st st' where
    "serializeRules tb order initialState rules = Inr st"
    "clearMaps tb order st IgnorePreviousRules = Inr st'"
    "locs = actionLocations st'" "acts = actions st'"
    "wellFormed st" "inBuffer st" "wellFormed st'" "inBuffer st'" "carries st st'"
    "cssDisplayNoneActionsMap st' = []"
    "length (actionLocations st) = length rules"
proof -
  from assms(2) obtain st st' where
    1: "serializeRules tb order initialState rules = Inr st"
    and 2: "clearMaps tb order st IgnorePreviousRules = Inr st'"
    and 3: "locs = actionLocations st'" "acts = actions st'"
    by (auto simp: serializeActions_final split: sum.splits)
  from serializeRules_run [OF wellFormed_initial assms(1) 1]
  have w: "wellFormed st" and l: "length (actionLocations st) = length rules"
    by (simp_all add: initialState_def)
  from serializeRules_inBuffer [OF assms(1) wellFormed_initial inBuffer_initial 1]
  have b: "inBuffer st" .
  from clearMaps_run [OF w assms(1) 2] have w': "wellFormed st'" and c: "carries st st'" by simp_all
  from clearMaps_inBuffer [OF w assms(1) b 2] have b': "inBuffer st'" .
  from clearMaps_result [OF 2] have e: "cssDisplayNoneActionsMap st' = []" by auto
  from 1 2 3 w b w' b' c e l show ?thesis by (rule that)
qed

lemma serializeActions_total:
  assumes "iteratesAll order" and "\<forall>rule \<in> set rules. validRule rule"
  shows "\<exists>locs acts. serializeActions tb order rules = Inr (locs, acts)"
proof -
  from serializeRules_wellFormed [OF assms(1) wellFormed_initial assms(2), of tb] obtain st where
    1: "serializeRules tb order initialState rules = Inr st" and w: "wellFormed st" by blast
  from clearMaps_wellFormed [OF w assms(1), of tb IgnorePreviousRules] obtain st' where
    "clearMaps tb order st IgnorePreviousRules = Inr st'" by blast
  with 1 show ?thesis by (simp add: serializeActions_final)
qed

lemma serializeActions_inBuffer:
  assumes "iteratesAll order" and "serializeActions tb order rules = Inr (locs, acts)"
  shows "\<forall>k < length locs. locs ! k < length acts"
proof -
  from assms obtain st' where
    "locs = actionLocations st'" "acts = actions st'" "inBuffer st'" "cssDisplayNoneActionsMap st' = []"
    by (rule serializeActions_states)
  then show ?thesis by (simp add: inBuffer_def)
qed

subsection \<open>The action location of the rule just processed\<close>

lemma assign_new_location:
  assumes "assignActionLocation tb st rule = Inr st'"
  shows "length (actionLocations st) \<in> set (slotClients (cssDisplayNoneActionsMap st'))
       \<or> (actionLocations st' ! length (actionLocations st) = length (actions st)
           \<and> length (actions st) < length (actions st'))
       \<or> (conditions (trigger rule) = []
           \<and> dedupMap (actionType (action rule)) st (flags (trigger rule))
               = Some (actionLocations st' ! length (actionLocations st)))"
  using assign_valid [OF assms]
proof (cases rule rule: rule_kinds)
  case conditions
  with assms show ?thesis
    using selectorEntry_nonempty [of tb "stringArgument (action rule)"]
    by (auto simp: assign_conditions [OF conditions])
next
  case selector
  with assms show ?thesis
    by (auto simp: assign_selector [OF selector] addPending_clients_set)
next
  case dedup
  with assms show ?thesis
    by (cases "dedupMap (actionType (action rule)) st (flags (trigger rule))")
       (auto simp: assign_dedup [OF dedup])
qed

lemma assign_maps:
  assumes "assignActionLocation tb st rule = Inr st'" and "dedupMap ty st' fl = Some v"
  shows "dedupMap ty st fl = Some v
       \<or> (v = length (actions st) \<and> ty = actionType (action rule) \<and> conditions (trigger rule) = [])"
  using assign_valid [OF assms(1)]
proof (cases rule rule: rule_kinds)
  case conditions
  with assms show ?thesis by (auto simp: assign_conditions [OF conditions])
next
  case selector
  with assms show ?thesis by (auto simp: assign_selector [OF selector])
next
  case dedup
  with assms show ?thesis
    by (cases "dedupMap (actionType (action rule)) st (flags (trigger rule))")
       (auto simp: assign_dedup [OF dedup] dedupMap_setDedupMap [OF dedup(2)] split: if_splits)
qed

lemma clearMaps_maps:
  assumes "clearMaps tb order st ty = Inr st'" and "dedupMap ty' st' fl = Some v"
  shows "dedupMap ty' st fl = Some v"
  using clearMaps_result [OF assms(1)] assms(2) by (auto split: if_splits)

subsection \<open>An offset of one rule alone\<close>

lemma carries_uniqueAt:
  assumes "carries st st'" and "uniqueAt i offset st"
  shows "offset < length (actions st')" and "i < length (actionLocations st')"
    and "actionLocations st' ! i = offset"
    and "i \<notin> set (slotClients (cssDisplayNoneActionsMap st'))"
    and "\<forall>k < length (actionLocations st). k \<noteq> i \<longrightarrow>
           k \<in> set (slotClients (cssDisplayNoneActionsMap st')) \<or> actionLocations st' ! k \<noteq> offset"
proof -
  from assms show "offset < length (actions st')" by (auto simp: carries_def uniqueAt_def)
  from assms show "i < length (actionLocations st')" by (auto simp: carries_def uniqueAt_def)
  from assms show "actionLocations st' ! i = offset" by (auto simp: carries_def uniqueAt_def)
  from assms show "i \<notin> set (slotClients (cssDisplayNoneActionsMap st'))"
    by (auto simp: carries_def uniqueAt_def)
  show "\<forall>k < length (actionLocations st). k \<noteq> i \<longrightarrow>
           k \<in> set (slotClients (cssDisplayNoneActionsMap st')) \<or> actionLocations st' ! k \<noteq> offset"
  proof (intro allI impI)
    fix k assume k: "k < length (actionLocations st)" "k \<noteq> i"
    show "k \<in> set (slotClients (cssDisplayNoneActionsMap st')) \<or> actionLocations st' ! k \<noteq> offset"
    proof (cases "k \<in> set (slotClients (cssDisplayNoneActionsMap st))")
      case True
      with assms(1) k have "k \<in> set (slotClients (cssDisplayNoneActionsMap st'))
          \<or> length (actions st) \<le> actionLocations st' ! k" by (auto simp: carries_def)
      moreover from assms(2) have "offset < length (actions st)" by (simp add: uniqueAt_def)
      ultimately show ?thesis by auto
    next
      case False
      with assms(1) k have "actionLocations st' ! k = actionLocations st ! k" by (auto simp: carries_def)
      moreover from False assms(2) k have "actionLocations st ! k \<noteq> offset" by (auto simp: uniqueAt_def)
      ultimately show ?thesis by simp
    qed
  qed
qed

lemma clearMaps_uniqueAt:
  assumes "wellFormed st" and "iteratesAll order" and "uniqueAt i offset st"
    and "clearMaps tb order st ty = Inr st'"
  shows "uniqueAt i offset st'"
proof -
  from clearMaps_run [OF assms(1,2,4)] have c: "carries st st'" by simp
  from clearMaps_length [OF assms(4)] have l: "length (actionLocations st') = length (actionLocations st)" .
  have "dedupMap ty' st' fl \<noteq> Some offset" for ty' fl
    using clearMaps_maps [OF assms(4), of ty' fl offset] assms(3) by (auto simp: uniqueAt_def)
  with carries_uniqueAt [OF c assms(3)] l show ?thesis by (simp add: uniqueAt_def)
qed

lemma assign_uniqueAt:
  assumes "wellFormed st" and "uniqueAt i offset st" and "assignActionLocation tb st rule = Inr st'"
  shows "uniqueAt i offset st'"
proof -
  from assign_run [OF assms(1,3)] have c: "carries st st'"
    and l: "length (actionLocations st') = Suc (length (actionLocations st))" by simp_all
  from assms(2) have o: "offset < length (actions st)"
    and m: "\<And>ty fl. dedupMap ty st fl \<noteq> Some offset" by (simp_all add: uniqueAt_def)
  have maps: "dedupMap ty st' fl \<noteq> Some offset" for ty fl
    using assign_maps [OF assms(3), of ty fl offset] m o by auto
  let ?n = "length (actionLocations st)"
  from assign_new_location [OF assms(3)] m o
  have new: "?n \<in> set (slotClients (cssDisplayNoneActionsMap st')) \<or> actionLocations st' ! ?n \<noteq> offset"
    by auto
  have "\<forall>k < length (actionLocations st'). k \<noteq> i \<longrightarrow>
           k \<in> set (slotClients (cssDisplayNoneActionsMap st')) \<or> actionLocations st' ! k \<noteq> offset"
  proof (intro allI impI)
    fix k assume "k < length (actionLocations st')" "k \<noteq> i"
    with l consider "k < ?n" "k \<noteq> i" | "k = ?n" by force
    then show "k \<in> set (slotClients (cssDisplayNoneActionsMap st')) \<or> actionLocations st' ! k \<noteq> offset"
      using carries_uniqueAt(5) [OF c assms(2)] new by cases auto
  qed
  with carries_uniqueAt(1-4) [OF c assms(2)] maps show ?thesis by (simp add: uniqueAt_def)
qed

lemma serializeRule_uniqueAt:
  assumes "wellFormed st" and "iteratesAll order" and "uniqueAt i offset st"
    and "serializeRule tb order st rule = Inr st'"
  shows "uniqueAt i offset st'"
proof -
  from assms(4) obtain st1 where
    1: "clearMaps tb order st (actionType (action rule)) = Inr st1"
    and 2: "assignActionLocation tb st1 rule = Inr st'"
    by (auto simp: serializeRule_def split: sum.splits)
  from clearMaps_run(1) [OF assms(1,2) 1] clearMaps_uniqueAt [OF assms(1,2,3) 1] 2
  show ?thesis by (rule assign_uniqueAt)
qed

lemma serializeRules_uniqueAt:
  assumes "iteratesAll order"
  shows "wellFormed st \<Longrightarrow> uniqueAt i offset st \<Longrightarrow> serializeRules tb order st rules = Inr st'
          \<Longrightarrow> uniqueAt i offset st'"
proof (induction rules arbitrary: st)
  case Nil
  then show ?case by simp
next
  case (Cons rule rules)
  from Cons.prems(3) obtain st1 where
    1: "serializeRule tb order st rule = Inr st1" and 2: "serializeRules tb order st1 rules = Inr st'"
    by (auto split: sum.splits)
  from serializeRule_run(1) [OF Cons.prems(1) assms 1]
    serializeRule_uniqueAt [OF Cons.prems(1) assms Cons.prems(2) 1] 2
  show ?case by (rule Cons.IH)
qed

text \<open>The states of a run around the rule \<open>i\<close>.\<close>

lemma serializeActions_split:
  assumes "iteratesAll order" and "serializeActions tb order rules = Inr (locs, acts)"
    and "i < length rules"
  obtains st0 st1 st2 st3 st4 where
    "serializeRules tb order initialState (take i rules) = Inr st0"
    "clearMaps tb order st0 (actionType (action (rules ! i))) = Inr st1"
    "assignActionLocation tb st1 (rules ! i) = Inr st2"
    "serializeRules tb order st2 (drop (Suc i) rules) = Inr st3"
    "clearMaps tb order st3 IgnorePreviousRules = Inr st4"
    "locs = actionLocations st4" "acts = actions st4"
    "wellFormed st0" "inBuffer st0" "wellFormed st1" "inBuffer st1" "wellFormed st2" "inBuffer st2"
    "wellFormed st3" "cssDisplayNoneActionsMap st4 = []"
    "length (actionLocations st0) = i" "length (actionLocations st1) = i"
    "carries st2 st3" "carries st3 st4"
proof -
  from assms(2) obtain st3 st4 where
    r: "serializeRules tb order initialState rules = Inr st3"
    and f: "clearMaps tb order st3 IgnorePreviousRules = Inr st4"
    and la: "locs = actionLocations st4" "acts = actions st4"
    by (auto simp: serializeActions_final split: sum.splits)
  from assms(3) have "rules = take i rules @ (rules ! i # drop (Suc i) rules)"
    by (simp add: id_take_nth_drop)
  with r have "serializeRules tb order initialState (take i rules @ (rules ! i # drop (Suc i) rules)) = Inr st3"
    by simp
  then obtain st0 st2 where
    0: "serializeRules tb order initialState (take i rules) = Inr st0"
    and s: "serializeRule tb order st0 (rules ! i) = Inr st2"
    and 3: "serializeRules tb order st2 (drop (Suc i) rules) = Inr st3"
    by (auto simp: serializeRules_append split: sum.splits)
  from s obtain st1 where
    1: "clearMaps tb order st0 (actionType (action (rules ! i))) = Inr st1"
    and 2: "assignActionLocation tb st1 (rules ! i) = Inr st2"
    by (auto simp: serializeRule_def split: sum.splits)
  from serializeRules_run [OF wellFormed_initial assms(1) 0] assms(3)
  have w0: "wellFormed st0" and l0: "length (actionLocations st0) = i"
    by (simp_all add: initialState_def)
  from serializeRules_inBuffer [OF assms(1) wellFormed_initial inBuffer_initial 0]
  have b0: "inBuffer st0" .
  from clearMaps_run [OF w0 assms(1) 1] have w1: "wellFormed st1" by simp
  from clearMaps_inBuffer [OF w0 assms(1) b0 1] have b1: "inBuffer st1" .
  from clearMaps_length [OF 1] l0 have l1: "length (actionLocations st1) = i" by simp
  from assign_run [OF w1 2] have w2: "wellFormed st2" by simp
  from assign_inBuffer [OF w1 b1 2] have b2: "inBuffer st2" .
  from serializeRules_run [OF w2 assms(1) 3] have w3: "wellFormed st3" and c3: "carries st2 st3"
    by simp_all
  from clearMaps_run [OF w3 assms(1) f] have c4: "carries st3 st4" by simp
  from clearMaps_result [OF f] have e: "cssDisplayNoneActionsMap st4 = []" by auto
  from 0 1 2 3 f la w0 b0 w1 b1 w2 b2 w3 e l0 l1 c3 c4 show ?thesis by (rule that)
qed

text \<open>
  Claim C4, as the code has it. Every rule with conditions, a selector rule too, gets an
  entry of the action table of its own: its action location is the offset at which its
  action is serialized alone (its own selector for a selector rule, its type byte for any
  other), and no other rule has this action location. Selector rules with conditions are
  never batched.
\<close>

theorem conditioned_rule_entry:
  assumes "iteratesAll order"
    and "serializeActions tb order rules = Inr (locs, acts)"
    and "i < length rules"
    and "conditions (trigger (rules ! i)) \<noteq> []"
  shows "(\<forall>j < length rules. j \<noteq> i \<longrightarrow> locs ! j \<noteq> locs ! i)
       \<and> entryAt acts (locs ! i)
           (if actionType (action (rules ! i)) = CSSDisplayNoneSelector
            then selectorEntry tb (stringArgument (action (rules ! i)))
            else [tb (actionType (action (rules ! i)))])"
proof -
  let ?e = "if actionType (action (rules ! i)) = CSSDisplayNoneSelector
            then selectorEntry tb (stringArgument (action (rules ! i)))
            else [tb (actionType (action (rules ! i)))]"
  from assms(1,2,3) obtain st1 st2 st3 st4 where
    2: "assignActionLocation tb st1 (rules ! i) = Inr st2"
    and 3: "serializeRules tb order st2 (drop (Suc i) rules) = Inr st3"
    and 4: "clearMaps tb order st3 IgnorePreviousRules = Inr st4"
    and la: "locs = actionLocations st4" "acts = actions st4"
    and w1: "wellFormed st1" and b1: "inBuffer st1" and w2: "wellFormed st2" and w3: "wellFormed st3"
    and e4: "cssDisplayNoneActionsMap st4 = []"
    and l1: "length (actionLocations st1) = i"
    and c3: "carries st2 st3" and c4: "carries st3 st4"
    by (rule serializeActions_split)
  let ?o = "length (actions st1)"
  from 2 have st2: "st2 = st1\<lparr>actionLocations := actionLocations st1 @ [?o], actions := actions st1 @ ?e\<rparr>"
    by (simp add: assign_conditions [OF assms(4)])
  have ne: "?e \<noteq> []" by (simp add: selectorEntry_nonempty)
  have u2: "uniqueAt i ?o st2"
    unfolding uniqueAt_def
  proof (intro conjI allI impI)
    show "?o < length (actions st2)" using ne by (cases ?e) (simp_all add: st2)
    show "i < length (actionLocations st2)" by (simp add: st2 l1)
    show "actionLocations st2 ! i = ?o" using l1 by (simp add: st2 nth_append)
    show "i \<notin> set (slotClients (cssDisplayNoneActionsMap st2))"
      using w1 l1 by (auto simp: st2 wellFormed_def)
  next
    fix ty fl
    from b1 have "dedupMap ty st1 fl \<noteq> Some ?o" by (auto simp: inBuffer_def)
    then show "dedupMap ty st2 fl \<noteq> Some ?o" by (simp add: st2)
  next
    fix k assume "k < length (actionLocations st2)" "k \<noteq> i"
    with l1 have k: "k < length (actionLocations st1)" by (simp add: st2)
    with b1 have "k \<in> set (slotClients (cssDisplayNoneActionsMap st1))
        \<or> actionLocations st1 ! k < ?o" by (simp add: inBuffer_def)
    with k show "k \<in> set (slotClients (cssDisplayNoneActionsMap st2)) \<or> actionLocations st2 ! k \<noteq> ?o"
      by (auto simp: st2 nth_append)
  qed
  from serializeRules_uniqueAt [OF assms(1) w2 u2 3] have u3: "uniqueAt i ?o st3" .
  from clearMaps_uniqueAt [OF w3 assms(1) u3 4] have u4: "uniqueAt i ?o st4" .
  from serializeActions_length [OF assms(2)] have ll: "length locs = length rules" .
  from u4 e4 la ll have unique: "\<forall>j < length rules. j \<noteq> i \<longrightarrow> locs ! j \<noteq> locs ! i"
    by (simp add: uniqueAt_def)
  from u4 la have li: "locs ! i = ?o" by (simp add: uniqueAt_def)
  have "entryAt (actions st2) ?o ?e"
    using entryAt_append [of "actions st1" ?e "[]"] by (simp add: st2)
  moreover from c3 c4 obtain x y where "actions st4 = (actions st2 @ x) @ y"
    by (auto simp: carries_def)
  ultimately have "entryAt acts ?o ?e"
    using la by (simp add: entryAt_grow)
  with unique li show ?thesis by simp
qed

text \<open>
  Two selector rules with the same trigger, which has a condition: each gets an entry of
  its own, with its own selector.
\<close>

theorem conditioned_rule_entry_witness:
  "iteratesAll rev
   \<and> serializeActions exampleTypeByte rev
        [exampleRule CSSDisplayNoneSelector [97] 0 [narrow [100]] [46, 97],
         exampleRule CSSDisplayNoneSelector [97] 0 [narrow [100]] [46, 98]]
       = Inr ([0, 8], [2, 2, 0, 0, 0, 0, 46, 97, 2, 2, 0, 0, 0, 0, 46, 98])
   \<and> conditions (trigger (exampleRule CSSDisplayNoneSelector [97] 0 [narrow [100]] [46, 97])) \<noteq> []
   \<and> [0, 8 :: nat] ! 1 \<noteq> [0, 8] ! 0
   \<and> entryAt [2, 2, 0, 0, 0, 0, 46, 97, 2, 2, 0, 0, 0, 0, 46, 98] ([0, 8] ! 0)
        (selectorEntry exampleTypeByte (narrow [46, 97]))"
proof -
  let ?a = "exampleRule CSSDisplayNoneSelector [97] 0 [narrow [100]] [46, 97]"
  let ?b = "exampleRule CSSDisplayNoneSelector [97] 0 [narrow [100]] [46, 98]"
  have s: "serializeActions exampleTypeByte rev [?a, ?b]
       = Inr ([0, 8], [2, 2, 0, 0, 0, 0, 46, 97, 2, 2, 0, 0, 0, 0, 46, 98])"
    by (simp add: example_defs serializer_defs)
  have i: "0 < length [?a, ?b]" by simp
  have c: "conditions (trigger ([?a, ?b] ! 0)) \<noteq> []" by (simp add: example_defs)
  from conditioned_rule_entry [OF iteratesAll_rev s i c]
  have "[0, 8 :: nat] ! 1 \<noteq> [0, 8] ! 0
      \<and> entryAt [2, 2, 0, 0, 0, 0, 46, 97, 2, 2, 0, 0, 0, 0, 46, 98] ([0, 8] ! 0)
          (selectorEntry exampleTypeByte (narrow [46, 97]))"
    by (simp add: example_defs)
  with s c iteratesAll_rev show ?thesis by simp
qed

text \<open>
  Claim C4 as stated fails in its exception: two selector rules with conditions and the
  same trigger are not batched. Each has its own action location, and the buffer holds
  their two entries, each with one selector; it holds no entry with the two selectors
  joined.
\<close>

theorem conditioned_selectors_not_batched_counterexample:
  "serializeActions exampleTypeByte rev
     [exampleRule CSSDisplayNoneSelector [97] 0 [narrow [100]] [46, 97],
      exampleRule CSSDisplayNoneSelector [97] 0 [narrow [100]] [46, 98]]
     = Inr ([0, 8], [2, 2, 0, 0, 0, 0, 46, 97, 2, 2, 0, 0, 0, 0, 46, 98])
   \<and> trigger (exampleRule CSSDisplayNoneSelector [97] 0 [narrow [100]] [46, 97])
       = trigger (exampleRule CSSDisplayNoneSelector [97] 0 [narrow [100]] [46, 98])
   \<and> (0 :: nat) \<noteq> 8
   \<and> selectorEntry exampleTypeByte (joinSelectors [narrow [46, 97], narrow [46, 98]])
       = [2, 5, 0, 0, 0, 0, 46, 97, 44, 46, 98]
   \<and> \<not> entryAt [2, 2, 0, 0, 0, 0, 46, 97, 2, 2, 0, 0, 0, 0, 46, 98 :: 8 word] 0
         [2, 5, 0, 0, 0, 0, 46, 97, 44, 46, 98]
   \<and> \<not> entryAt [2, 2, 0, 0, 0, 0, 46, 97, 2, 2, 0, 0, 0, 0, 46, 98 :: 8 word] 8
         [2, 5, 0, 0, 0, 0, 46, 97, 44, 46, 98]"
  by (simp add: example_defs serializer_defs entryAt_def selectorEntry_def joinSelectors_def)

subsection \<open>Rules after an IgnorePreviousRules rule\<close>

lemma clearMaps_above:
  assumes "wellFormed st" and "iteratesAll order" and "above bound st"
    and "clearMaps tb order st ty = Inr st'"
  shows "above bound st'"
proof -
  from clearMaps_run [OF assms(1,2,4)] have "carries st st'" by simp
  then have g: "length (actions st) \<le> length (actions st')" by (auto simp: carries_def)
  have "bound \<le> v" if "ty' \<noteq> IgnorePreviousRules" "dedupMap ty' st' fl = Some v" for ty' fl v
    using clearMaps_maps [OF assms(4) that(2)] that(1) assms(3) by (auto simp: above_def)
  with g assms(3) show ?thesis by (auto simp: above_def)
qed

lemma assign_above:
  assumes "wellFormed st" and "above bound st" and "assignActionLocation tb st rule = Inr st'"
  shows "above bound st'"
    and "\<not> plainIgnore rule \<Longrightarrow>
           length (actionLocations st) \<in> set (slotClients (cssDisplayNoneActionsMap st'))
         \<or> bound \<le> actionLocations st' ! length (actionLocations st)"
proof -
  from assign_run [OF assms(1,3)] have "carries st st'" by simp
  then have g: "length (actions st) \<le> length (actions st')" by (auto simp: carries_def)
  have "bound \<le> v" if "ty \<noteq> IgnorePreviousRules" "dedupMap ty st' fl = Some v" for ty fl v
    using assign_maps [OF assms(3) that(2)] that(1) assms(2) by (auto simp: above_def)
  with g assms(2) show "above bound st'" by (auto simp: above_def)
  assume "\<not> plainIgnore rule"
  with assign_new_location [OF assms(3)] assms(2)
  show "length (actionLocations st) \<in> set (slotClients (cssDisplayNoneActionsMap st'))
         \<or> bound \<le> actionLocations st' ! length (actionLocations st)"
    by (auto simp: above_def plainIgnore_def)
qed

lemma carries_above_old:
  assumes "carries st st'" and "bound \<le> length (actions st)" and "k < length (actionLocations st)"
    and "k \<in> set (slotClients (cssDisplayNoneActionsMap st)) \<or> bound \<le> actionLocations st ! k"
  shows "k \<in> set (slotClients (cssDisplayNoneActionsMap st')) \<or> bound \<le> actionLocations st' ! k"
proof (cases "k \<in> set (slotClients (cssDisplayNoneActionsMap st))")
  case True
  with assms(1,3) have "k \<in> set (slotClients (cssDisplayNoneActionsMap st'))
      \<or> length (actions st) \<le> actionLocations st' ! k" by (auto simp: carries_def)
  with assms(2) show ?thesis by auto
next
  case False
  with assms(1,3) have "actionLocations st' ! k = actionLocations st ! k" by (auto simp: carries_def)
  with False assms(4) show ?thesis by simp
qed

lemma serializeRule_above:
  assumes "wellFormed st" and "iteratesAll order" and "above bound st"
    and "serializeRule tb order st rule = Inr st'"
  shows "above bound st'"
    and "\<not> plainIgnore rule \<Longrightarrow>
           length (actionLocations st) \<in> set (slotClients (cssDisplayNoneActionsMap st'))
         \<or> bound \<le> actionLocations st' ! length (actionLocations st)"
proof -
  from assms(4) obtain st1 where
    1: "clearMaps tb order st (actionType (action rule)) = Inr st1"
    and 2: "assignActionLocation tb st1 rule = Inr st'"
    by (auto simp: serializeRule_def split: sum.splits)
  from clearMaps_run(1) [OF assms(1,2) 1] have w1: "wellFormed st1" .
  from clearMaps_above [OF assms(1,2,3) 1] have a1: "above bound st1" .
  from clearMaps_length [OF 1] have l: "length (actionLocations st1) = length (actionLocations st)" .
  from assign_above(1) [OF w1 a1 2] show "above bound st'" .
  assume "\<not> plainIgnore rule"
  from assign_above(2) [OF w1 a1 2 this] l
  show "length (actionLocations st) \<in> set (slotClients (cssDisplayNoneActionsMap st'))
         \<or> bound \<le> actionLocations st' ! length (actionLocations st)" by simp
qed

lemma serializeRules_above:
  assumes "iteratesAll order"
  shows "wellFormed st \<Longrightarrow> above bound st \<Longrightarrow> serializeRules tb order st rules = Inr st'
    \<Longrightarrow> above bound st'
        \<and> (\<forall>k < length rules. \<not> plainIgnore (rules ! k) \<longrightarrow>
              length (actionLocations st) + k \<in> set (slotClients (cssDisplayNoneActionsMap st'))
            \<or> bound \<le> actionLocations st' ! (length (actionLocations st) + k))"
proof (induction rules arbitrary: st)
  case Nil
  then show ?case by simp
next
  case (Cons rule rules)
  from Cons.prems(3) obtain st1 where
    1: "serializeRule tb order st rule = Inr st1" and 2: "serializeRules tb order st1 rules = Inr st'"
    by (auto split: sum.splits)
  from serializeRule_run [OF Cons.prems(1) assms 1]
  have w1: "wellFormed st1" and l1: "length (actionLocations st1) = Suc (length (actionLocations st))"
    by simp_all
  from serializeRule_above(1) [OF Cons.prems(1) assms Cons.prems(2) 1] have a1: "above bound st1" .
  from Cons.IH [OF w1 a1 2] have a': "above bound st'"
    and rest: "\<forall>k < length rules. \<not> plainIgnore (rules ! k) \<longrightarrow>
              length (actionLocations st1) + k \<in> set (slotClients (cssDisplayNoneActionsMap st'))
            \<or> bound \<le> actionLocations st' ! (length (actionLocations st1) + k)"
    by simp_all
  from serializeRules_run(2) [OF w1 assms 2] have c: "carries st1 st'" .
  from a1 have b1: "bound \<le> length (actions st1)" by (simp add: above_def)
  have "\<forall>k < length (rule # rules). \<not> plainIgnore ((rule # rules) ! k) \<longrightarrow>
              length (actionLocations st) + k \<in> set (slotClients (cssDisplayNoneActionsMap st'))
            \<or> bound \<le> actionLocations st' ! (length (actionLocations st) + k)"
  proof (intro allI impI)
    fix k assume k: "k < length (rule # rules)" and n: "\<not> plainIgnore ((rule # rules) ! k)"
    show "length (actionLocations st) + k \<in> set (slotClients (cssDisplayNoneActionsMap st'))
            \<or> bound \<le> actionLocations st' ! (length (actionLocations st) + k)"
    proof (cases k)
      case 0
      with n have "\<not> plainIgnore rule" by simp
      from serializeRule_above(2) [OF Cons.prems(1) assms Cons.prems(2) 1 this]
      have "length (actionLocations st) \<in> set (slotClients (cssDisplayNoneActionsMap st1))
         \<or> bound \<le> actionLocations st1 ! length (actionLocations st)" .
      from carries_above_old [OF c b1 _ this] l1 0 show ?thesis by simp
    next
      case (Suc k')
      with k n rest l1 show ?thesis by simp
    qed
  qed
  with a' show ?case by simp
qed

text \<open>
  Claim C2, as the code has it. Processing a rule whose action is \<open>IgnorePreviousRules\<close>
  first serializes every pending group of selectors (each group gets its entry in the
  buffer, and its rules get the offset of the entry), then leaves the pending map and the
  dedup maps of \<open>BlockLoad\<close>, \<open>BlockCookies\<close> and \<open>MakeHTTPS\<close> empty. The dedup map
  of \<open>IgnorePreviousRules\<close> itself is kept. So a rule after it, unless it is itself an
  \<open>IgnorePreviousRules\<close> rule without conditions, has an action location beyond the
  action location of every rule before it: they share no entry of the action table.
\<close>

theorem ignore_previous_rules_flushes:
  assumes "iteratesAll order"
  shows "(wellFormed st \<longrightarrow> actionType (action rule) = IgnorePreviousRules \<longrightarrow>
            serializeRule tb order st rule = Inr st' \<longrightarrow>
              cssDisplayNoneActionsMap st' = []
            \<and> blockLoadActionsMap st' = Map.empty
            \<and> blockCookiesActionsMap st' = Map.empty
            \<and> makeHTTPSActionsMap st' = Map.empty
            \<and> (\<forall>slot \<in> set (cssDisplayNoneActionsMap st).
                  \<exists>offset. entryAt (actions st') offset
                             (selectorEntry tb (joinSelectors (selectors (snd slot))))
                    \<and> (\<forall>c \<in> set (clientLocations (snd slot)). actionLocations st' ! c = offset)))
       \<and> (serializeActions tb order rules = Inr (locs, acts) \<longrightarrow>
            j < m \<longrightarrow> m < k \<longrightarrow> k < length rules \<longrightarrow>
            actionType (action (rules ! m)) = IgnorePreviousRules \<longrightarrow>
            \<not> plainIgnore (rules ! k) \<longrightarrow>
              locs ! j < locs ! k)"
proof (rule conjI; intro impI)
  assume w: "wellFormed st" and ig: "actionType (action rule) = IgnorePreviousRules"
    and s: "serializeRule tb order st rule = Inr st'"
  from wellFormed_resolve [OF w assms, of tb] obtain A' L' where
    r: "resolvePendingDisplayNoneActions tb order (actions st) (actionLocations st)
          (cssDisplayNoneActionsMap st) = Inr (A', L', [])"
    and l: "length L' = length (actionLocations st)"
    and slots: "\<forall>slot \<in> set (cssDisplayNoneActionsMap st).
                 \<exists>offset. length (actions st) \<le> offset \<and> offset < length A'
                  \<and> entryAt A' offset (selectorEntry tb (joinSelectors (selectors (snd slot))))
                  \<and> (\<forall>c \<in> set (clientLocations (snd slot)). L' ! c = offset)"
    by blast
  let ?st1 = "st\<lparr>actions := A', actionLocations := L',
                  blockLoadActionsMap := Map.empty, blockCookiesActionsMap := Map.empty,
                  cssDisplayNoneActionsMap := [], makeHTTPSActionsMap := Map.empty\<rparr>"
  from r ig have c: "clearMaps tb order st (actionType (action rule)) = Inr ?st1"
    by (simp add: clearMaps_def)
  with s have a: "assignActionLocation tb ?st1 rule = Inr st'" by (simp add: serializeRule_def)
  have fields: "cssDisplayNoneActionsMap st' = [] \<and> blockLoadActionsMap st' = Map.empty
      \<and> blockCookiesActionsMap st' = Map.empty \<and> makeHTTPSActionsMap st' = Map.empty
      \<and> (\<exists>x. actions st' = A' @ x) \<and> (\<exists>y. actionLocations st' = L' @ y)"
  proof (cases "conditions (trigger rule) = []")
    case False
    with a show ?thesis by (auto simp: assign_conditions)
  next
    case True
    from ig have "dedupType (actionType (action rule))" by (simp add: dedupType_def)
    from a ig show ?thesis
      by (cases "ignorePreviousRuleActionsMap st (flags (trigger rule))")
         (auto simp: assign_dedup [OF True \<open>dedupType (actionType (action rule))\<close>]
            dedupMap_def setDedupMap_def)
  qed
  then obtain x y where x: "actions st' = A' @ x" and y: "actionLocations st' = L' @ y" by blast
  have "\<forall>slot \<in> set (cssDisplayNoneActionsMap st).
          \<exists>offset. entryAt (actions st') offset (selectorEntry tb (joinSelectors (selectors (snd slot))))
            \<and> (\<forall>c \<in> set (clientLocations (snd slot)). actionLocations st' ! c = offset)"
  proof
    fix slot assume in_map: "slot \<in> set (cssDisplayNoneActionsMap st)"
    with slots obtain offset where
      e: "entryAt A' offset (selectorEntry tb (joinSelectors (selectors (snd slot))))"
      and cl: "\<forall>c \<in> set (clientLocations (snd slot)). L' ! c = offset" by blast
    from in_map w have "\<forall>c \<in> set (clientLocations (snd slot)). c < length L'"
      by (auto simp: wellFormed_def in_slotClients l)
    with cl have "\<forall>c \<in> set (clientLocations (snd slot)). actionLocations st' ! c = offset"
      by (simp add: y nth_append)
    with entryAt_grow [OF e, of x]
    show "\<exists>offset. entryAt (actions st') offset (selectorEntry tb (joinSelectors (selectors (snd slot))))
            \<and> (\<forall>c \<in> set (clientLocations (snd slot)). actionLocations st' ! c = offset)"
      by (auto simp: x)
  qed
  with fields show "cssDisplayNoneActionsMap st' = []
            \<and> blockLoadActionsMap st' = Map.empty
            \<and> blockCookiesActionsMap st' = Map.empty
            \<and> makeHTTPSActionsMap st' = Map.empty
            \<and> (\<forall>slot \<in> set (cssDisplayNoneActionsMap st).
                  \<exists>offset. entryAt (actions st') offset
                             (selectorEntry tb (joinSelectors (selectors (snd slot))))
                    \<and> (\<forall>c \<in> set (clientLocations (snd slot)). actionLocations st' ! c = offset))"
    by simp
next
  assume s: "serializeActions tb order rules = Inr (locs, acts)"
    and jm: "j < m" and mk: "m < k" and k: "k < length rules"
    and ig: "actionType (action (rules ! m)) = IgnorePreviousRules"
    and nk: "\<not> plainIgnore (rules ! k)"
  from mk k have m: "m < length rules" by simp
  from assms s m obtain st0 st1 st2 st3 st4 where
    1: "clearMaps tb order st0 (actionType (action (rules ! m))) = Inr st1"
    and 2: "assignActionLocation tb st1 (rules ! m) = Inr st2"
    and 3: "serializeRules tb order st2 (drop (Suc m) rules) = Inr st3"
    and 4: "clearMaps tb order st3 IgnorePreviousRules = Inr st4"
    and la: "locs = actionLocations st4" "acts = actions st4"
    and w1: "wellFormed st1" and w2: "wellFormed st2" and b2: "inBuffer st2" and w3: "wellFormed st3"
    and e4: "cssDisplayNoneActionsMap st4 = []"
    and l1: "length (actionLocations st1) = m"
    and c3: "carries st2 st3" and c4: "carries st3 st4"
    by (rule serializeActions_split)
  from assign_run(3) [OF w1 2] l1 have l2: "length (actionLocations st2) = Suc m" by simp
  let ?N = "length (actions st2)"
  from clearMaps_result [OF 1] ig have e1: "cssDisplayNoneActionsMap st1 = []"
    and m1: "\<And>ty. ty \<noteq> IgnorePreviousRules \<Longrightarrow> dedupMap ty st1 = Map.empty"
    by auto
  have e2: "cssDisplayNoneActionsMap st2 = []"
  proof (cases "conditions (trigger (rules ! m)) = []")
    case False
    with 2 e1 show ?thesis by (auto simp: assign_conditions)
  next
    case True
    from ig have d: "dedupType (actionType (action (rules ! m)))" by (simp add: dedupType_def)
    from 2 e1 show ?thesis
      by (cases "dedupMap (actionType (action (rules ! m))) st1 (flags (trigger (rules ! m)))")
         (auto simp: assign_dedup [OF True d])
  qed
  have a2: "above ?N st2"
    unfolding above_def
  proof (intro conjI allI impI)
    show "?N \<le> length (actions st2)" by simp
    fix ty fl v assume ty: "ty \<noteq> IgnorePreviousRules" and v: "dedupMap ty st2 fl = Some v"
    from assign_maps [OF 2 v] ty ig m1 [OF ty] show "?N \<le> v" by auto
  qed
  from b2 e2 l2 jm have lj: "actionLocations st2 ! j < ?N" by (simp add: inBuffer_def)
  from carries_trans [OF c3 c4] have c24: "carries st2 st4" .
  from c24 e2 l2 jm have "actionLocations st4 ! j = actionLocations st2 ! j"
    by (simp add: carries_def)
  with lj la have low: "locs ! j < ?N" by simp
  let ?k = "k - Suc m"
  from mk k have kk: "?k < length (drop (Suc m) rules)" "drop (Suc m) rules ! ?k = rules ! k"
    "length (actionLocations st2) + ?k = k"
    by (simp_all add: l2)
  from serializeRules_above [OF assms w2 a2 3] kk nk
  have a3: "above ?N st3"
    and "k \<in> set (slotClients (cssDisplayNoneActionsMap st3)) \<or> ?N \<le> actionLocations st3 ! k"
    by (auto simp del: length_drop nth_drop)
  moreover from a3 have "?N \<le> length (actions st3)" by (simp add: above_def)
  moreover from serializeRules_run(3) [OF w2 assms 3] l2 k mk
  have "k < length (actionLocations st3)" by simp
  ultimately have "k \<in> set (slotClients (cssDisplayNoneActionsMap st4)) \<or> ?N \<le> actionLocations st4 ! k"
    using carries_above_old [OF c4] by blast
  with e4 la have "?N \<le> locs ! k" by simp
  with low show "locs ! j < locs ! k" by simp
qed

text \<open>
  One selector rule waits when an \<open>IgnorePreviousRules\<close> rule is processed; and of the
  three rules block, ignore-previous-rules, block with the same flags, the two block
  rules get two entries of the action table.
\<close>

theorem ignore_previous_rules_flushes_witness:
  "iteratesAll rev
   \<and> wellFormed (initialState\<lparr>actionLocations := [UINT_MAX],
          cssDisplayNoneActionsMap := [(trigger (exampleRule CSSDisplayNoneSelector [97] 0 [] [46, 97]),
             \<lparr>selectors = [narrow [46, 97]], clientLocations = [0]\<rparr>)]\<rparr>)
   \<and> (\<exists>st'. serializeRule exampleTypeByte rev
               (initialState\<lparr>actionLocations := [UINT_MAX],
                  cssDisplayNoneActionsMap := [(trigger (exampleRule CSSDisplayNoneSelector [97] 0 [] [46, 97]),
                     \<lparr>selectors = [narrow [46, 97]], clientLocations = [0]\<rparr>)]\<rparr>)
               (exampleRule IgnorePreviousRules [98] 0 [] []) = Inr st'
          \<and> cssDisplayNoneActionsMap st' = []
          \<and> (\<exists>offset. entryAt (actions st') offset
                         (selectorEntry exampleTypeByte (joinSelectors [narrow [46, 97]]))
                \<and> actionLocations st' ! 0 = offset))
   \<and> serializeActions exampleTypeByte rev
        [exampleRule BlockLoad [97] 0 [] [], exampleRule IgnorePreviousRules [98] 0 [] [],
         exampleRule BlockLoad [99] 0 [] []] = Inr ([0, 1, 2], [0, 4, 0])
   \<and> [0, 1, 2 :: nat] ! 0 < [0, 1, 2] ! 2"
proof -
  let ?t = "trigger (exampleRule CSSDisplayNoneSelector [97] 0 [] [46, 97])"
  let ?st = "initialState\<lparr>actionLocations := [UINT_MAX],
          cssDisplayNoneActionsMap := [(?t, \<lparr>selectors = [narrow [46, 97]], clientLocations = [0]\<rparr>)]\<rparr>"
  let ?ig = "exampleRule IgnorePreviousRules [98] 0 [] []"
  let ?rules = "[exampleRule BlockLoad [97] 0 [] [], ?ig, exampleRule BlockLoad [99] 0 [] []]"
  have w: "wellFormed ?st"
    by (simp add: wellFormed_def slotClients_def)
  have ty: "actionType (action ?ig) = IgnorePreviousRules"
    by (simp add: example_defs)
  have "\<exists>st'. serializeRule exampleTypeByte rev ?st ?ig = Inr st'"
    by (simp add: example_defs serializer_defs resolvePendingDisplayNoneActions_def)
  then obtain st' where s: "serializeRule exampleTypeByte rev ?st ?ig = Inr st'" by blast
  from ignore_previous_rules_flushes [OF iteratesAll_rev, of ?st ?ig exampleTypeByte st'] w ty s
  have "cssDisplayNoneActionsMap st' = []
      \<and> (\<exists>offset. entryAt (actions st') offset
                     (selectorEntry exampleTypeByte (joinSelectors [narrow [46, 97]]))
            \<and> actionLocations st' ! 0 = offset)"
    by simp
  with s have a: "\<exists>st'. serializeRule exampleTypeByte rev ?st ?ig = Inr st'
          \<and> cssDisplayNoneActionsMap st' = []
          \<and> (\<exists>offset. entryAt (actions st') offset
                         (selectorEntry exampleTypeByte (joinSelectors [narrow [46, 97]]))
                \<and> actionLocations st' ! 0 = offset)" by blast
  have r: "serializeActions exampleTypeByte rev ?rules = Inr ([0, 1, 2], [0, 4, 0])"
    by (simp add: example_defs serializer_defs)
  have "\<not> plainIgnore (?rules ! 2)" by (simp add: plainIgnore_def example_defs)
  with ignore_previous_rules_flushes [OF iteratesAll_rev, of _ _ exampleTypeByte _ ?rules "[0, 1, 2]" "[0, 4, 0]" 0 1 2]
    r ty
  have b: "[0, 1, 2 :: nat] ! 0 < [0, 1, 2] ! 2" by simp
  from iteratesAll_rev w a r b show ?thesis by blast
qed

text \<open>
  Claim C2 as stated fails for rules that are themselves \<open>IgnorePreviousRules\<close>: of
  three such rules without conditions, the third comes after the second and shares the
  entry of the first, which comes before it.
\<close>

theorem ignore_rules_share_counterexample:
  "serializeActions exampleTypeByte rev
     [exampleRule IgnorePreviousRules [97] 0 [] [], exampleRule IgnorePreviousRules [98] 1 [] [],
      exampleRule IgnorePreviousRules [99] 0 [] []] = Inr ([0, 1, 0], [4, 4])
   \<and> actionType (action (exampleRule IgnorePreviousRules [98] 1 [] [])) = IgnorePreviousRules
   \<and> [0, 1, 0 :: nat] ! 0 = [0, 1, 0] ! 2"
  by (simp add: example_defs serializer_defs)

subsection \<open>Dedup maps between two rules\<close>

lemma clearMaps_keep:
  assumes "\<not> clearsDedup ty rule" and "clearMaps tb order st (actionType (action rule)) = Inr st'"
  shows "dedupMap ty st' = dedupMap ty st"
  using clearMaps_result [OF assms(2)] assms(1)
  by (auto simp: clearsDedup_def split: if_splits)

lemma assign_keep:
  assumes "dedupMap ty st fl = Some v" and "assignActionLocation tb st rule = Inr st'"
  shows "dedupMap ty st' fl = Some v"
  using assign_valid [OF assms(2)]
proof (cases rule rule: rule_kinds)
  case conditions
  with assms show ?thesis by (auto simp: assign_conditions [OF conditions])
next
  case selector
  with assms show ?thesis by (auto simp: assign_selector [OF selector])
next
  case dedup
  with assms show ?thesis
    by (cases "dedupMap (actionType (action rule)) st (flags (trigger rule))")
       (auto simp: assign_dedup [OF dedup] dedupMap_setDedupMap [OF dedup(2)])
qed

lemma serializeRules_keep:
  "\<forall>rule \<in> set rules. \<not> clearsDedup ty rule \<Longrightarrow> dedupMap ty st fl = Some v
    \<Longrightarrow> serializeRules tb order st rules = Inr st' \<Longrightarrow> dedupMap ty st' fl = Some v"
proof (induction rules arbitrary: st)
  case Nil
  then show ?case by simp
next
  case (Cons rule rules)
  from Cons.prems(3) obtain st1 st2 where
    1: "clearMaps tb order st (actionType (action rule)) = Inr st1"
    and 2: "assignActionLocation tb st1 rule = Inr st2"
    and 3: "serializeRules tb order st2 rules = Inr st'"
    by (auto simp: serializeRule_def split: sum.splits)
  from Cons.prems(1) have "\<not> clearsDedup ty rule" by simp
  from clearMaps_keep [OF this 1] Cons.prems(2) have "dedupMap ty st1 fl = Some v" by simp
  from assign_keep [OF this 2] have "dedupMap ty st2 fl = Some v" .
  with Cons.IH [OF _ _ 3] Cons.prems(1) show ?case by simp
qed

lemma assign_dedup_location:
  assumes "conditions (trigger rule) = []" and "dedupType (actionType (action rule))"
    and "assignActionLocation tb st rule = Inr st'"
  shows "dedupMap (actionType (action rule)) st' (flags (trigger rule))
           = Some (actionLocations st' ! length (actionLocations st))"
    and "cssDisplayNoneActionsMap st' = cssDisplayNoneActionsMap st"
    and "dedupMap (actionType (action rule)) st (flags (trigger rule)) = Some v
           \<Longrightarrow> actionLocations st' ! length (actionLocations st) = v"
  using assms(3)
  by (cases "dedupMap (actionType (action rule)) st (flags (trigger rule))";
      auto simp: assign_dedup [OF assms(1,2)] dedupMap_setDedupMap [OF assms(2)])+

lemma carries_kept:
  assumes "carries st st'" and "k < length (actionLocations st)"
    and "k \<notin> set (slotClients (cssDisplayNoneActionsMap st))"
  shows "actionLocations st' ! k = actionLocations st ! k"
    and "k \<notin> set (slotClients (cssDisplayNoneActionsMap st'))"
    and "k < length (actionLocations st')"
  using assms by (auto simp: carries_def)

lemma wellFormed_clients:
  "wellFormed st \<Longrightarrow> length (actionLocations st) \<notin> set (slotClients (cssDisplayNoneActionsMap st))"
  by (auto simp: wellFormed_def)

lemma same_dedup_location:
  assumes "iteratesAll order" and "serializeActions tb order rules = Inr (locs, acts)"
    and "i < j" and "j < length rules"
    and "conditions (trigger (rules ! i)) = []" and "conditions (trigger (rules ! j)) = []"
    and "actionType (action (rules ! i)) = ty" and "actionType (action (rules ! j)) = ty"
    and "dedupType ty"
    and "flags (trigger (rules ! i)) = flags (trigger (rules ! j))"
    and "\<forall>m. i < m \<and> m < j \<longrightarrow> \<not> clearsDedup ty (rules ! m)"
  shows "locs ! i = locs ! j"
proof -
  from assms(3,4) have i: "i < length rules" by simp
  from assms(1,2) i obtain st1 st2 st3 st4 where
    2: "assignActionLocation tb st1 (rules ! i) = Inr st2"
    and 3: "serializeRules tb order st2 (drop (Suc i) rules) = Inr st3"
    and 4: "clearMaps tb order st3 IgnorePreviousRules = Inr st4"
    and la: "locs = actionLocations st4"
    and w1: "wellFormed st1" and w2: "wellFormed st2" and w3: "wellFormed st3"
    and l1: "length (actionLocations st1) = i"
    and c3: "carries st2 st3" and c4: "carries st3 st4"
    by (rule serializeActions_split)
  let ?fl = "flags (trigger (rules ! i))"
  let ?v = "actionLocations st2 ! i"
  from assms(5,7,9) have d: "dedupType (actionType (action (rules ! i)))" by simp
  from assign_dedup_location(1,2) [OF assms(5) d 2] l1 assms(7)
  have m2: "dedupMap ty st2 ?fl = Some ?v"
    and p2: "cssDisplayNoneActionsMap st2 = cssDisplayNoneActionsMap st1" by simp_all
  from assign_run(3) [OF w1 2] l1 have l2: "length (actionLocations st2) = Suc i" by simp
  from wellFormed_clients [OF w1] p2 l1
  have n2: "i \<notin> set (slotClients (cssDisplayNoneActionsMap st2))" by simp
  from carries_kept [OF carries_trans [OF c3 c4] _ n2] l2 la have li: "locs ! i = ?v" by simp
  let ?rest = "drop (Suc i) rules"
  let ?d = "j - Suc i"
  from assms(3,4) have dj: "?d < length ?rest" and rj: "?rest ! ?d = rules ! j" by simp_all
  from dj have "?rest = take ?d ?rest @ (?rest ! ?d # drop (Suc ?d) ?rest)"
    by (simp only: id_take_nth_drop [symmetric])
  with 3 rj have "serializeRules tb order st2 (take ?d ?rest @ (rules ! j # drop (Suc ?d) ?rest)) = Inr st3"
    by simp
  then obtain sa sb sc where
    a: "serializeRules tb order st2 (take ?d ?rest) = Inr sa"
    and b: "clearMaps tb order sa (actionType (action (rules ! j))) = Inr sb"
    and c: "assignActionLocation tb sb (rules ! j) = Inr sc"
    and e: "serializeRules tb order sc (drop (Suc ?d) ?rest) = Inr st3"
    by (auto simp: serializeRules_append serializeRule_def split: sum.splits)
  have "\<forall>rule \<in> set (take ?d ?rest). \<not> clearsDedup ty rule"
  proof
    fix rule assume "rule \<in> set (take ?d ?rest)"
    then obtain n where n: "n < length (take ?d ?rest)" "take ?d ?rest ! n = rule"
      by (auto simp: in_set_conv_nth)
    with assms(3,4) have "rule = rules ! (Suc i + n)" "i < Suc i + n" "Suc i + n < j"
      by auto
    with assms(11) show "\<not> clearsDedup ty rule" by blast
  qed
  from serializeRules_keep [OF this m2 a] have ma: "dedupMap ty sa ?fl = Some ?v" .
  from assms(8) have "\<not> clearsDedup ty (rules ! j)" by (simp add: clearsDedup_def)
  from clearMaps_keep [OF this b] ma have mb: "dedupMap ty sb ?fl = Some ?v" by simp
  from serializeRules_run [OF w2 assms(1) a] l2 assms(3,4)
  have wa: "wellFormed sa" and lena: "length (actionLocations sa) = j" by simp_all
  from clearMaps_run(1) [OF wa assms(1) b] have wb: "wellFormed sb" .
  from clearMaps_length [OF b] lena have lenb: "length (actionLocations sb) = j" by simp
  from assms(8,9) have dj': "dedupType (actionType (action (rules ! j)))" by simp
  from assign_dedup_location(3) [OF assms(6) dj' c, of ?v] mb assms(8,10) lenb
  have vj: "actionLocations sc ! j = ?v" by simp
  from assign_dedup_location(2) [OF assms(6) dj' c] wellFormed_clients [OF wb] lenb
  have nj: "j \<notin> set (slotClients (cssDisplayNoneActionsMap sc))" by simp
  from assign_run [OF wb c] lenb have wc: "wellFormed sc" and lenc: "length (actionLocations sc) = Suc j"
    by simp_all
  from serializeRules_run(2) [OF wc assms(1) e] have "carries sc st3" .
  from carries_kept [OF carries_trans [OF this c4] _ nj] lenc vj la have "locs ! j = ?v" by simp
  with li show ?thesis by simp
qed

subsection \<open>Groups of selectors\<close>

lemma characters_appendString [simp]:
  "characters (appendString b s) = characters b @ characters s"
  by (simp add: appendString_def)

lemma characters_appendCharacter [simp]:
  "characters (appendCharacter b c) = characters b @ [c]"
  by (simp add: appendCharacter_def)

lemma joinSelectors_characters_aux:
  "characters (combineSelectors b i ss) =
     characters b @ (if ss = [] then [] else (if i = 0 then [] else [comma]) @ commaJoined (map characters ss))"
proof (induction ss arbitrary: b i)
  case Nil
  then show ?case by simp
next
  case (Cons s ss)
  let ?b = "appendString (if i \<noteq> 0 then appendCharacter b comma else b) s"
  have step: "combineSelectors b i (s # ss) = combineSelectors ?b (Suc i) ss" by simp
  have b: "characters ?b = characters b @ (if i = 0 then [] else [comma]) @ characters s" by simp
  show ?case
  proof (cases ss)
    case Nil
    with b show ?thesis by (simp only: step) simp
  next
    case (Cons s' ss')
    from Cons.IH [of ?b "Suc i"] Cons b show ?thesis by (simp only: step) simp
  qed
qed

lemma joinSelectors_characters:
  "characters (joinSelectors ss) = commaJoined (map characters ss)"
  by (simp add: joinSelectors_def joinSelectors_characters_aux emptyBuilder_def)

lemma groupMembers_Cons:
  "groupMembers t (rule # run) first =
     (if plainSelector rule \<and> trigger rule = t then [first] else []) @ groupMembers t run (Suc first)"
  by (simp add: groupMembers_def)

lemma groupSelectors_Cons:
  "groupSelectors t (rule # run) =
     (if plainSelector rule \<and> trigger rule = t then [stringArgument (action rule)] else [])
     @ groupSelectors t run"
  by (simp add: groupSelectors_def)

lemma assign_pending:
  assumes "assignActionLocation tb st rule = Inr st'"
  shows "pendingSelectors (cssDisplayNoneActionsMap st') t =
           pendingSelectors (cssDisplayNoneActionsMap st) t
           @ (if plainSelector rule \<and> trigger rule = t then [stringArgument (action rule)] else [])"
    and "pendingClients (cssDisplayNoneActionsMap st') t =
           pendingClients (cssDisplayNoneActionsMap st) t
           @ (if plainSelector rule \<and> trigger rule = t then [length (actionLocations st)] else [])"
  using assign_valid [OF assms]
proof (atomize (full), cases rule rule: rule_kinds)
  case conditions
  with assms show "pendingSelectors (cssDisplayNoneActionsMap st') t =
           pendingSelectors (cssDisplayNoneActionsMap st) t
           @ (if plainSelector rule \<and> trigger rule = t then [stringArgument (action rule)] else [])
     \<and> pendingClients (cssDisplayNoneActionsMap st') t =
           pendingClients (cssDisplayNoneActionsMap st) t
           @ (if plainSelector rule \<and> trigger rule = t then [length (actionLocations st)] else [])"
    by (auto simp: assign_conditions [OF conditions] plainSelector_def)
next
  case selector
  with assms show "pendingSelectors (cssDisplayNoneActionsMap st') t =
           pendingSelectors (cssDisplayNoneActionsMap st) t
           @ (if plainSelector rule \<and> trigger rule = t then [stringArgument (action rule)] else [])
     \<and> pendingClients (cssDisplayNoneActionsMap st') t =
           pendingClients (cssDisplayNoneActionsMap st) t
           @ (if plainSelector rule \<and> trigger rule = t then [length (actionLocations st)] else [])"
    by (auto simp: assign_selector [OF selector] plainSelector_def
        pendingSelectors_addPending pendingClients_addPending)
next
  case dedup
  with assms show "pendingSelectors (cssDisplayNoneActionsMap st') t =
           pendingSelectors (cssDisplayNoneActionsMap st) t
           @ (if plainSelector rule \<and> trigger rule = t then [stringArgument (action rule)] else [])
     \<and> pendingClients (cssDisplayNoneActionsMap st') t =
           pendingClients (cssDisplayNoneActionsMap st) t
           @ (if plainSelector rule \<and> trigger rule = t then [length (actionLocations st)] else [])"
    by (cases "dedupMap (actionType (action rule)) st (flags (trigger rule))")
       (auto simp: assign_dedup [OF dedup] plainSelector_def dedupType_def)
qed

lemma serializeRules_pending:
  "\<forall>rule \<in> set run. \<not> isIgnore rule \<Longrightarrow> serializeRules tb order st run = Inr st'
    \<Longrightarrow> pendingSelectors (cssDisplayNoneActionsMap st') t =
          pendingSelectors (cssDisplayNoneActionsMap st) t @ groupSelectors t run
      \<and> pendingClients (cssDisplayNoneActionsMap st') t =
          pendingClients (cssDisplayNoneActionsMap st) t
          @ groupMembers t run (length (actionLocations st))"
proof (induction run arbitrary: st)
  case Nil
  then show ?case by (simp add: groupSelectors_def groupMembers_def)
next
  case (Cons rule run)
  from Cons.prems(1) have n: "actionType (action rule) \<noteq> IgnorePreviousRules"
    by (simp add: isIgnore_def)
  from Cons.prems(2) obtain st1 st2 where
    1: "clearMaps tb order st (actionType (action rule)) = Inr st1"
    and 2: "assignActionLocation tb st1 rule = Inr st2"
    and 3: "serializeRules tb order st2 run = Inr st'"
    by (auto simp: serializeRule_def split: sum.splits)
  from 1 n have st1: "st1 = st\<lparr>ignorePreviousRuleActionsMap := Map.empty\<rparr>"
    by (simp add: clearMaps_other)
  from assignActionLocation_length [OF 2] st1 have l2: "length (actionLocations st2) = Suc (length (actionLocations st))"
    by simp
  from Cons.prems(1) have "\<forall>rule \<in> set run. \<not> isIgnore rule" by simp
  from Cons.IH [OF this 3] assign_pending [OF 2, of t] st1 l2
  show ?case by (simp add: groupSelectors_Cons groupMembers_Cons)
qed

lemma pending_slot:
  assumes "distinct (map fst P)" and "pendingClients P t \<noteq> []"
  shows "\<exists>slot \<in> set P. selectors (snd slot) = pendingSelectors P t
           \<and> clientLocations (snd slot) = pendingClients P t"
proof -
  from assms(2) obtain p where p: "map_of P t = Some p"
    by (auto simp: pendingClients_def split: option.splits)
  then have "(t, p) \<in> set P" by (rule map_of_SomeD)
  with p show ?thesis by (force simp: pendingSelectors_def pendingClients_def)
qed

lemma flush_group:
  assumes "wellFormed st" and "iteratesAll order"
    and "clearMaps tb order st IgnorePreviousRules = Inr st'"
    and "pendingClients (cssDisplayNoneActionsMap st) t \<noteq> []"
  shows "\<exists>offset. entryAt (actions st') offset
                    (selectorEntry tb (joinSelectors (pendingSelectors (cssDisplayNoneActionsMap st) t)))
           \<and> (\<forall>c \<in> set (pendingClients (cssDisplayNoneActionsMap st) t).
                 actionLocations st' ! c = offset)"
proof -
  from wellFormed_resolve [OF assms(1,2), of tb] obtain A' L' where
    r: "resolvePendingDisplayNoneActions tb order (actions st) (actionLocations st)
          (cssDisplayNoneActionsMap st) = Inr (A', L', [])"
    and slots: "\<forall>slot \<in> set (cssDisplayNoneActionsMap st).
                 \<exists>offset. length (actions st) \<le> offset \<and> offset < length A'
                  \<and> entryAt A' offset (selectorEntry tb (joinSelectors (selectors (snd slot))))
                  \<and> (\<forall>c \<in> set (clientLocations (snd slot)). L' ! c = offset)"
    by blast
  from r assms(3) have st': "actions st' = A'" "actionLocations st' = L'"
    by (auto simp: clearMaps_def)
  from assms(1) have "distinct (map fst (cssDisplayNoneActionsMap st))" by (simp add: wellFormed_def)
  from pending_slot [OF this assms(4)] obtain slot where
    "slot \<in> set (cssDisplayNoneActionsMap st)"
    "selectors (snd slot) = pendingSelectors (cssDisplayNoneActionsMap st) t"
    "clientLocations (snd slot) = pendingClients (cssDisplayNoneActionsMap st) t" by blast
  with slots st' show ?thesis by fastforce
qed

lemma ignore_rule_clears:
  assumes "isIgnore rule" and "serializeRule tb order st rule = Inr st'"
  shows "cssDisplayNoneActionsMap st' = []"
proof -
  from assms(2) obtain st1 where
    1: "clearMaps tb order st (actionType (action rule)) = Inr st1"
    and 2: "assignActionLocation tb st1 rule = Inr st'"
    by (auto simp: serializeRule_def split: sum.splits)
  from clearMaps_result [OF 1] assms(1) have e: "cssDisplayNoneActionsMap st1 = []"
    by (auto simp: isIgnore_def)
  show ?thesis
  proof (cases "conditions (trigger rule) = []")
    case False
    with 2 e show ?thesis by (auto simp: assign_conditions)
  next
    case True
    from assms(1) have "dedupType (actionType (action rule))" by (simp add: dedupType_def isIgnore_def)
    from assign_dedup_location(2) [OF True this 2] e show ?thesis by simp
  qed
qed

lemma serializeRules_ends_with_ignore:
  assumes "pre = [] \<or> isIgnore (last pre)"
    and "serializeRules tb order initialState pre = Inr st"
  shows "cssDisplayNoneActionsMap st = []"
proof (cases "pre = []")
  case True
  with assms(2) show ?thesis by (auto simp: initialState_def)
next
  case False
  with assms(1) have ig: "isIgnore (last pre)" by simp
  from False have "pre = butlast pre @ [last pre]" by simp
  with assms(2) have "serializeRules tb order initialState (butlast pre @ [last pre]) = Inr st" by simp
  then obtain st0 where "serializeRule tb order st0 (last pre) = Inr st"
    by (auto simp: serializeRules_append split: sum.splits)
  from ignore_rule_clears [OF ig this] show ?thesis .
qed

text \<open>
  In a run of rules between two \<open>IgnorePreviousRules\<close> rules (or an end of the list),
  the selector rules without conditions that have one trigger share one entry of the
  buffer, which holds their selectors joined in the order of the rules.
\<close>

lemma selector_group_entry:
  assumes "iteratesAll order" and "serializeActions tb order (pre @ run @ post) = Inr (locs, acts)"
    and "pre = [] \<or> isIgnore (last pre)"
    and "\<forall>rule \<in> set run. \<not> isIgnore rule"
    and "post = [] \<or> isIgnore (hd post)"
    and "groupMembers t run (length pre) \<noteq> []"
  shows "\<exists>offset. (\<forall>k \<in> set (groupMembers t run (length pre)). locs ! k = offset)
           \<and> entryAt acts offset (selectorEntry tb (joinSelectors (groupSelectors t run)))"
proof -
  from assms(2) obtain st3 st4 where
    r: "serializeRules tb order initialState (pre @ run @ post) = Inr st3"
    and f: "clearMaps tb order st3 IgnorePreviousRules = Inr st4"
    and la: "locs = actionLocations st4" "acts = actions st4"
    by (auto simp: serializeActions_final split: sum.splits)
  from r obtain st0 st1 where
    0: "serializeRules tb order initialState pre = Inr st0"
    and 1: "serializeRules tb order st0 run = Inr st1"
    and 3: "serializeRules tb order st1 post = Inr st3"
    by (auto simp: serializeRules_append split: sum.splits)
  from serializeRules_run [OF wellFormed_initial assms(1) 0]
  have w0: "wellFormed st0" and l0: "length (actionLocations st0) = length pre"
    by (simp_all add: initialState_def)
  from serializeRules_ends_with_ignore [OF assms(3) 0] have e0: "cssDisplayNoneActionsMap st0 = []" .
  from serializeRules_run(1) [OF w0 assms(1) 1] have w1: "wellFormed st1" .
  from serializeRules_pending [OF assms(4) 1, of t] e0 l0
  have ps: "pendingSelectors (cssDisplayNoneActionsMap st1) t = groupSelectors t run"
    and pc: "pendingClients (cssDisplayNoneActionsMap st1) t = groupMembers t run (length pre)"
    by (simp_all add: pendingSelectors_def pendingClients_def)
  from clearMaps_wellFormed [OF w1 assms(1), of tb IgnorePreviousRules] obtain st2 where
    2: "clearMaps tb order st1 IgnorePreviousRules = Inr st2" and w2: "wellFormed st2" by blast
  from clearMaps_result [OF 2] have e2: "cssDisplayNoneActionsMap st2 = []" by auto
  from flush_group [OF w1 assms(1) 2, of t] pc ps assms(6) obtain offset where
    entry: "entryAt (actions st2) offset (selectorEntry tb (joinSelectors (groupSelectors t run)))"
    and members: "\<forall>c \<in> set (groupMembers t run (length pre)). actionLocations st2 ! c = offset"
    by auto
  have c24: "carries st2 st4"
  proof (cases post)
    case Nil
    with 3 f 2 show ?thesis by (simp add: carries_refl)
  next
    case (Cons ig post')
    with assms(5) have ig: "actionType (action ig) = IgnorePreviousRules" by (simp add: isIgnore_def)
    from 3 Cons ig 2 obtain sa where
      a: "assignActionLocation tb st2 ig = Inr sa"
      and b: "serializeRules tb order sa post' = Inr st3"
      by (auto simp: serializeRule_def split: sum.splits)
    from assign_run [OF w2 a] have wa: "wellFormed sa" and ca: "carries st2 sa" by simp_all
    from serializeRules_run [OF wa assms(1) b] have w3: "wellFormed st3" and cb: "carries sa st3"
      by simp_all
    from clearMaps_run(2) [OF w3 assms(1) f] have "carries st3 st4" .
    with ca cb show ?thesis by (blast intro: carries_trans)
  qed
  from w1 pc assms(6) have "\<forall>c \<in> set (groupMembers t run (length pre)). c < length (actionLocations st1)"
    using pending_slot [of "cssDisplayNoneActionsMap st1" t]
    by (fastforce simp: wellFormed_def in_slotClients)
  with clearMaps_length [OF 2]
  have inr: "\<forall>c \<in> set (groupMembers t run (length pre)). c < length (actionLocations st2)" by simp
  have "\<forall>k \<in> set (groupMembers t run (length pre)). locs ! k = offset"
  proof
    fix k assume k: "k \<in> set (groupMembers t run (length pre))"
    with inr have "k < length (actionLocations st2)" by simp
    from carries_kept(1) [OF c24 this] e2 have "actionLocations st4 ! k = actionLocations st2 ! k"
      by simp
    with members k la show "locs ! k = offset" by simp
  qed
  moreover from c24 obtain x where "actions st4 = actions st2 @ x" by (auto simp: carries_def)
  with entryAt_grow [OF entry, of x] la
  have "entryAt acts offset (selectorEntry tb (joinSelectors (groupSelectors t run)))" by simp
  ultimately show ?thesis by blast
qed

text \<open>Every rule that is no \<open>IgnorePreviousRules\<close> rule lies in such a run.\<close>

lemma run_around:
  assumes "k < length rules" and "\<not> isIgnore (rules ! k)"
  shows "\<exists>pre run post. rules = pre @ run @ post
           \<and> (pre = [] \<or> isIgnore (last pre))
           \<and> (\<forall>rule \<in> set run. \<not> isIgnore rule)
           \<and> (post = [] \<or> isIgnore (hd post))
           \<and> length pre \<le> k \<and> k < length pre + length run"
proof -
  let ?P = "\<lambda>rule. \<not> isIgnore rule"
  let ?before = "take k rules" and ?after = "drop (Suc k) rules"
  let ?pre = "rev (dropWhile ?P (rev ?before))"
  let ?left = "rev (takeWhile ?P (rev ?before))"
  let ?right = "takeWhile ?P ?after"
  let ?post = "dropWhile ?P ?after"
  let ?run = "?left @ rules ! k # ?right"
  have b: "?before = ?pre @ ?left"
    by (metis rev_append rev_rev_ident takeWhile_dropWhile_id)
  have a: "?after = ?right @ ?post" by simp
  from assms(1) have "rules = ?before @ rules ! k # ?after" by (simp add: id_take_nth_drop)
  with a b have 1: "rules = ?pre @ ?run @ ?post" by (metis append.assoc append_Cons)
  have 2: "?pre = [] \<or> isIgnore (last ?pre)"
  proof (cases "dropWhile ?P (rev ?before)")
    case Nil
    then show ?thesis by simp
  next
    case (Cons x xs)
    then have "\<not> ?P (hd (dropWhile ?P (rev ?before)))" by (metis hd_dropWhile list.distinct(1))
    with Cons show ?thesis by (simp add: last_rev)
  qed
  have 3: "\<forall>rule \<in> set ?run. \<not> isIgnore rule"
    using assms(2) by (auto dest: set_takeWhileD)
  have 4: "?post = [] \<or> isIgnore (hd ?post)"
    using hd_dropWhile [of ?P ?after] by auto
  from b assms(1) have "length ?pre + length ?left = k"
    by (metis length_append length_take min.absorb2 less_imp_le)
  then have 5: "length ?pre \<le> k \<and> k < length ?pre + length ?run" by simp
  from 1 2 3 4 5 show ?thesis by blast
qed

lemma in_groupMembers:
  assumes "first \<le> k" and "k < first + length run" and "plainSelector (run ! (k - first))"
    and "trigger (run ! (k - first)) = t"
  shows "k \<in> set (groupMembers t run first)"
    and "stringArgument (action (run ! (k - first))) \<in> set (groupSelectors t run)"
proof -
  from assms(1,2) have "(k, run ! (k - first)) \<in> set (enumerate first run)"
    by (simp add: in_set_enumerate_eq)
  with assms(3,4) show "k \<in> set (groupMembers t run first)"
    by (force simp: groupMembers_def)
  from assms(1,2) have "run ! (k - first) \<in> set run" by simp
  with assms(3,4) show "stringArgument (action (run ! (k - first))) \<in> set (groupSelectors t run)"
    by (force simp: groupSelectors_def)
qed

text \<open>
  Claim C1, as the code has it. Two rules without conditions that have the same action
  type among \<open>BlockLoad\<close>, \<open>BlockCookies\<close>, \<open>MakeHTTPS\<close> and \<open>IgnorePreviousRules\<close>
  and the same flags get the same action location, hence the same
  action-location-and-flags word, when no rule between them clears the dedup map of the
  type: no \<open>IgnorePreviousRules\<close> rule for the first three types, and only
  \<open>IgnorePreviousRules\<close> rules for \<open>IgnorePreviousRules\<close>. In a run of rules between two
  flushes (from the start of the list or after an \<open>IgnorePreviousRules\<close> rule, up to the
  next such rule or the end), the selector rules without conditions that have one trigger
  all get the offset of one entry, whose string is their selectors joined with commas in
  the order of the rules.
\<close>

theorem dedup_and_selector_groups:
  assumes "iteratesAll order" and "serializeActions tb order rules = Inr (locs, acts)"
  shows "(\<forall>i j ty. i < j \<longrightarrow> j < length rules \<longrightarrow>
            conditions (trigger (rules ! i)) = [] \<longrightarrow> conditions (trigger (rules ! j)) = [] \<longrightarrow>
            actionType (action (rules ! i)) = ty \<longrightarrow> actionType (action (rules ! j)) = ty \<longrightarrow>
            dedupType ty \<longrightarrow> flags (trigger (rules ! i)) = flags (trigger (rules ! j)) \<longrightarrow>
            (\<forall>m. i < m \<and> m < j \<longrightarrow> \<not> clearsDedup ty (rules ! m)) \<longrightarrow>
              locs ! i = locs ! j
            \<and> actionLocationAndFlagsWord (flags (trigger (rules ! i))) (locs ! i)
                = actionLocationAndFlagsWord (flags (trigger (rules ! j))) (locs ! j))
       \<and> (\<forall>pre run post t. rules = pre @ run @ post \<longrightarrow>
            (pre = [] \<or> isIgnore (last pre)) \<longrightarrow> (\<forall>rule \<in> set run. \<not> isIgnore rule) \<longrightarrow>
            (post = [] \<or> isIgnore (hd post)) \<longrightarrow> groupMembers t run (length pre) \<noteq> [] \<longrightarrow>
              (\<exists>offset. (\<forall>k \<in> set (groupMembers t run (length pre)). locs ! k = offset)
                 \<and> entryAt acts offset (selectorEntry tb (joinSelectors (groupSelectors t run)))
                 \<and> characters (joinSelectors (groupSelectors t run))
                     = commaJoined (map characters (groupSelectors t run))))"
proof (rule conjI; intro allI impI)
  fix i j ty
  assume "i < j" "j < length rules"
    "conditions (trigger (rules ! i)) = []" "conditions (trigger (rules ! j)) = []"
    "actionType (action (rules ! i)) = ty" "actionType (action (rules ! j)) = ty"
    "dedupType ty" and fl: "flags (trigger (rules ! i)) = flags (trigger (rules ! j))"
    and "\<forall>m. i < m \<and> m < j \<longrightarrow> \<not> clearsDedup ty (rules ! m)"
  with assms have "locs ! i = locs ! j" by (rule same_dedup_location)
  with fl show "locs ! i = locs ! j
            \<and> actionLocationAndFlagsWord (flags (trigger (rules ! i))) (locs ! i)
                = actionLocationAndFlagsWord (flags (trigger (rules ! j))) (locs ! j)" by simp
next
  fix pre run post t
  assume "rules = pre @ run @ post" "pre = [] \<or> isIgnore (last pre)"
    "\<forall>rule \<in> set run. \<not> isIgnore rule" "post = [] \<or> isIgnore (hd post)"
    "groupMembers t run (length pre) \<noteq> []"
  with assms selector_group_entry [of order tb pre run post locs acts t]
  show "\<exists>offset. (\<forall>k \<in> set (groupMembers t run (length pre)). locs ! k = offset)
                 \<and> entryAt acts offset (selectorEntry tb (joinSelectors (groupSelectors t run)))
                 \<and> characters (joinSelectors (groupSelectors t run))
                     = commaJoined (map characters (groupSelectors t run))"
    by (simp add: joinSelectors_characters)
qed

text \<open>
  Claim C10. For a rule list the parser can hand over (no rule without conditions has an
  action type the switch does not expect), \<open>serializeActions\<close> returns; the array of
  action locations has one entry for each rule; every entry is an offset inside the action
  buffer, so none still holds the sentinel \<open>UINT_MAX\<close> (the buffer of a \<open>Vector\<close> has
  at most \<open>UINT_MAX\<close> bytes); and the entry of every selector rule without conditions is
  the offset of the combined entry of its trigger in its run of rules, which ends at the
  \<open>IgnorePreviousRules\<close> rule that flushed it or at the end of the list.
\<close>

theorem action_locations_backfilled:
  assumes "iteratesAll order" and "\<forall>rule \<in> set rules. validRule rule"
  shows "\<exists>locs acts. serializeActions tb order rules = Inr (locs, acts)
           \<and> length locs = length rules
           \<and> (\<forall>k < length rules. locs ! k < length acts)
           \<and> (length acts \<le> UINT_MAX \<longrightarrow> UINT_MAX \<notin> set locs)
           \<and> (\<forall>k < length rules. plainSelector (rules ! k) \<longrightarrow>
                (\<exists>pre run post. rules = pre @ run @ post
                   \<and> (pre = [] \<or> isIgnore (last pre))
                   \<and> (\<forall>rule \<in> set run. \<not> isIgnore rule)
                   \<and> (post = [] \<or> isIgnore (hd post))
                   \<and> length pre \<le> k \<and> k < length pre + length run
                   \<and> stringArgument (action (rules ! k)) \<in> set (groupSelectors (trigger (rules ! k)) run)
                   \<and> entryAt acts (locs ! k)
                       (selectorEntry tb (joinSelectors (groupSelectors (trigger (rules ! k)) run)))))"
proof -
  from serializeActions_total [OF assms, of tb] obtain locs acts where
    s: "serializeActions tb order rules = Inr (locs, acts)" by blast
  from serializeActions_length [OF s] have l: "length locs = length rules" .
  from serializeActions_inBuffer [OF assms(1) s] l
  have b: "\<forall>k < length rules. locs ! k < length acts" by simp
  have u: "length acts \<le> UINT_MAX \<longrightarrow> UINT_MAX \<notin> set locs"
  proof
    assume "length acts \<le> UINT_MAX"
    with b l have "\<forall>k < length locs. locs ! k \<noteq> UINT_MAX" by fastforce
    then show "UINT_MAX \<notin> set locs" by (auto simp: in_set_conv_nth)
  qed
  have g: "\<forall>k < length rules. plainSelector (rules ! k) \<longrightarrow>
                (\<exists>pre run post. rules = pre @ run @ post
                   \<and> (pre = [] \<or> isIgnore (last pre))
                   \<and> (\<forall>rule \<in> set run. \<not> isIgnore rule)
                   \<and> (post = [] \<or> isIgnore (hd post))
                   \<and> length pre \<le> k \<and> k < length pre + length run
                   \<and> stringArgument (action (rules ! k)) \<in> set (groupSelectors (trigger (rules ! k)) run)
                   \<and> entryAt acts (locs ! k)
                       (selectorEntry tb (joinSelectors (groupSelectors (trigger (rules ! k)) run))))"
  proof (intro allI impI)
    fix k assume k: "k < length rules" and p: "plainSelector (rules ! k)"
    let ?t = "trigger (rules ! k)"
    from p have "\<not> isIgnore (rules ! k)" by (simp add: plainSelector_def isIgnore_def)
    from run_around [OF k this] obtain pre run post where
      d: "rules = pre @ run @ post" and 1: "pre = [] \<or> isIgnore (last pre)"
      and 2: "\<forall>rule \<in> set run. \<not> isIgnore rule" and 3: "post = [] \<or> isIgnore (hd post)"
      and 4: "length pre \<le> k" "k < length pre + length run" by blast
    from d 4 have r: "run ! (k - length pre) = rules ! k" by (simp add: nth_append)
    from in_groupMembers [OF 4, of ?t] p r
    have m: "k \<in> set (groupMembers ?t run (length pre))"
      and sel: "stringArgument (action (rules ! k)) \<in> set (groupSelectors ?t run)" by simp_all
    from m have "groupMembers ?t run (length pre) \<noteq> []" by auto
    from selector_group_entry [OF assms(1) s [unfolded d] 1 2 3 this] m
    have "entryAt acts (locs ! k) (selectorEntry tb (joinSelectors (groupSelectors ?t run)))"
      by auto
    with d 1 2 3 4 sel show "\<exists>pre run post. rules = pre @ run @ post
                   \<and> (pre = [] \<or> isIgnore (last pre))
                   \<and> (\<forall>rule \<in> set run. \<not> isIgnore rule)
                   \<and> (post = [] \<or> isIgnore (hd post))
                   \<and> length pre \<le> k \<and> k < length pre + length run
                   \<and> stringArgument (action (rules ! k)) \<in> set (groupSelectors (trigger (rules ! k)) run)
                   \<and> entryAt acts (locs ! k)
                       (selectorEntry tb (joinSelectors (groupSelectors (trigger (rules ! k)) run)))"
      by blast
  qed
  from s l b u g show ?thesis by blast
qed

text \<open>
  Two block rules with the same flags and two selector rules with the same trigger,
  interleaved: the block rules share the offset 0, and the selector rules share the offset
  1, where the entry holds their two selectors joined with a comma.
\<close>

theorem dedup_and_selector_groups_witness:
  "iteratesAll rev
   \<and> serializeActions exampleTypeByte rev
        [exampleRule BlockLoad [97] 0 [] [], exampleRule CSSDisplayNoneSelector [97] 0 [] [46, 97],
         exampleRule BlockLoad [98] 0 [] [], exampleRule CSSDisplayNoneSelector [97] 0 [] [46, 98]]
       = Inr ([0, 1, 0, 1], [0, 2, 5, 0, 0, 0, 0, 46, 97, 44, 46, 98])
   \<and> \<not> clearsDedup BlockLoad (exampleRule CSSDisplayNoneSelector [97] 0 [] [46, 97])
   \<and> [0, 1, 0, 1 :: nat] ! 0 = [0, 1, 0, 1] ! 2
   \<and> groupMembers (trigger (exampleRule CSSDisplayNoneSelector [97] 0 [] [46, 97]))
        [exampleRule BlockLoad [97] 0 [] [], exampleRule CSSDisplayNoneSelector [97] 0 [] [46, 97],
         exampleRule BlockLoad [98] 0 [] [], exampleRule CSSDisplayNoneSelector [97] 0 [] [46, 98]] 0
       = [1, 3]
   \<and> (\<exists>offset. [0, 1, 0, 1 :: nat] ! 1 = offset \<and> [0, 1, 0, 1 :: nat] ! 3 = offset
          \<and> entryAt [0, 2, 5, 0, 0, 0, 0, 46, 97, 44, 46, 98] offset
               (selectorEntry exampleTypeByte (joinSelectors [narrow [46, 97], narrow [46, 98]])))"
proof -
  let ?b1 = "exampleRule BlockLoad [97] 0 [] []" and ?b2 = "exampleRule BlockLoad [98] 0 [] []"
  let ?s1 = "exampleRule CSSDisplayNoneSelector [97] 0 [] [46, 97]"
  let ?s2 = "exampleRule CSSDisplayNoneSelector [97] 0 [] [46, 98]"
  let ?rules = "[?b1, ?s1, ?b2, ?s2]"
  let ?locs = "[0, 1, 0, 1 :: nat]"
  let ?acts = "[0, 2, 5, 0, 0, 0, 0, 46, 97, 44, 46, 98] :: 8 word list"
  have s: "serializeActions exampleTypeByte rev ?rules = Inr (?locs, ?acts)"
    by (simp add: example_defs serializer_defs)
  have c: "\<not> clearsDedup BlockLoad ?s1" by (simp add: clearsDedup_def example_defs)
  then have between: "\<forall>m. 0 < m \<and> m < 2 \<longrightarrow> \<not> clearsDedup BlockLoad (?rules ! m)"
    by (auto simp: less_Suc_eq numeral_2_eq_2)
  have g: "groupMembers (trigger ?s1) ?rules 0 = [1, 3]"
    by (simp add: groupMembers_def plainSelector_def example_defs)
  have gs: "groupSelectors (trigger ?s1) ?rules = [narrow [46, 97], narrow [46, 98]]"
    by (simp add: groupSelectors_def plainSelector_def example_defs)
  have ni: "\<forall>rule \<in> set ?rules. \<not> isIgnore rule" by (simp add: isIgnore_def example_defs)
  note both = dedup_and_selector_groups [OF iteratesAll_rev s]
  from both [THEN conjunct1, rule_format, of 0 2 BlockLoad] between
  have a: "?locs ! 0 = ?locs ! 2" by (simp add: example_defs dedupType_def)
  from both [THEN conjunct2, rule_format, of "[]" ?rules "[]" "trigger ?s1"] ni g gs
  have b: "\<exists>offset. ?locs ! 1 = offset \<and> ?locs ! 3 = offset
          \<and> entryAt ?acts offset
               (selectorEntry exampleTypeByte (joinSelectors [narrow [46, 97], narrow [46, 98]]))"
    by auto
  from iteratesAll_rev s c a g b show ?thesis by blast
qed

text \<open>
  Claim C1 as stated fails twice. Two \<open>IgnorePreviousRules\<close> rules without conditions
  and with the same flags, with a block rule and no \<open>IgnorePreviousRules\<close> rule between
  them, get two action locations. Two selector rules without conditions and with the same
  trigger, with an \<open>IgnorePreviousRules\<close> rule between them, get two entries, each with
  one selector.
\<close>

theorem dedup_and_selector_groups_counterexample:
  "serializeActions exampleTypeByte rev
     [exampleRule IgnorePreviousRules [97] 0 [] [], exampleRule BlockLoad [98] 0 [] [],
      exampleRule IgnorePreviousRules [99] 0 [] []] = Inr ([0, 1, 2], [4, 0, 4])
   \<and> actionType (action (exampleRule BlockLoad [98] 0 [] [])) \<noteq> IgnorePreviousRules
   \<and> [0, 1, 2 :: nat] ! 0 \<noteq> [0, 1, 2] ! 2
   \<and> serializeActions exampleTypeByte rev
       [exampleRule CSSDisplayNoneSelector [97] 0 [] [46, 97], exampleRule IgnorePreviousRules [98] 0 [] [],
        exampleRule CSSDisplayNoneSelector [97] 0 [] [46, 98]]
       = Inr ([0, 8, 9], [2, 2, 0, 0, 0, 0, 46, 97, 4, 2, 2, 0, 0, 0, 0, 46, 98])
   \<and> trigger (exampleRule CSSDisplayNoneSelector [97] 0 [] [46, 97])
       = trigger (exampleRule CSSDisplayNoneSelector [97] 0 [] [46, 98])
   \<and> [0, 8, 9 :: nat] ! 0 \<noteq> [0, 8, 9] ! 2"
  by (simp add: example_defs serializer_defs)

text \<open>
  A selector rule, an \<open>IgnorePreviousRules\<close> rule and a selector rule: the three action
  locations are offsets in a buffer of 17 bytes.
\<close>

theorem action_locations_backfilled_witness:
  "iteratesAll rev
   \<and> validRule (exampleRule CSSDisplayNoneSelector [97] 0 [] [46, 97])
   \<and> validRule (exampleRule IgnorePreviousRules [98] 0 [] [])
   \<and> validRule (exampleRule CSSDisplayNoneSelector [97] 0 [] [46, 98])
   \<and> (\<exists>locs acts. serializeActions exampleTypeByte rev
          [exampleRule CSSDisplayNoneSelector [97] 0 [] [46, 97],
           exampleRule IgnorePreviousRules [98] 0 [] [],
           exampleRule CSSDisplayNoneSelector [97] 0 [] [46, 98]] = Inr (locs, acts)
        \<and> length locs = 3 \<and> length acts \<le> UINT_MAX \<and> UINT_MAX \<notin> set locs
        \<and> locs ! 0 < length acts \<and> locs ! 1 < length acts \<and> locs ! 2 < length acts)"
proof -
  let ?rules = "[exampleRule CSSDisplayNoneSelector [97] 0 [] [46, 97],
                 exampleRule IgnorePreviousRules [98] 0 [] [],
                 exampleRule CSSDisplayNoneSelector [97] 0 [] [46, 98]]"
  have v1: "validRule (exampleRule CSSDisplayNoneSelector [97] 0 [] [46, 97])"
    and v2: "validRule (exampleRule IgnorePreviousRules [98] 0 [] [])"
    and v3: "validRule (exampleRule CSSDisplayNoneSelector [97] 0 [] [46, 98])"
    by (simp_all add: validRule_def example_defs)
  then have v: "\<forall>rule \<in> set ?rules. validRule rule" by simp
  have s: "serializeActions exampleTypeByte rev ?rules
       = Inr ([0, 8, 9], [2, 2, 0, 0, 0, 0, 46, 97, 4, 2, 2, 0, 0, 0, 0, 46, 98])"
    by (simp add: example_defs serializer_defs)
  from action_locations_backfilled [OF iteratesAll_rev v, of exampleTypeByte] obtain locs acts where
    r: "serializeActions exampleTypeByte rev ?rules = Inr (locs, acts)"
    and l: "length locs = length ?rules"
    and b: "\<forall>k < length ?rules. locs ! k < length acts"
    and u: "length acts \<le> UINT_MAX \<longrightarrow> UINT_MAX \<notin> set locs"
    by blast
  from r s have "acts = [2, 2, 0, 0, 0, 0, 46, 97, 4, 2, 2, 0, 0, 0, 0, 46, 98]" by simp
  then have a: "length acts \<le> UINT_MAX" by (simp add: UINT_MAX_def)
  with u have "UINT_MAX \<notin> set locs" by simp
  with r l b a have "\<exists>locs acts. serializeActions exampleTypeByte rev ?rules = Inr (locs, acts)
        \<and> length locs = 3 \<and> length acts \<le> UINT_MAX \<and> UINT_MAX \<notin> set locs
        \<and> locs ! 0 < length acts \<and> locs ! 1 < length acts \<and> locs ! 2 < length acts"
    by auto
  with iteratesAll_rev v1 v2 v3 show ?thesis by blast
qed

subsection \<open>Universal actions and the first DFA\<close>







subsection \<open>The universal action sets and the combined filters\<close>

lemma addToSet_set [simp]: "set (addToSet s w) = insert w (set s)"
  by (auto simp: addToSet_def)

lemma addToSet_distinct: "distinct s \<Longrightarrow> distinct (addToSet s w)"
  by (simp add: addToSet_def)

lemma foldl_addDomain_entries:
  "set (foldl (\<lambda>filters condition. addDomain filters w condition) filters domains)
     = set filters \<union> DomainEntry w ` set domains"
  by (induction domains arbitrary: filters) (auto simp: addDomain_def)

lemma partitionRule_Inr:
  assumes "partitionRule env locs st ruleIndex rule = Inr (Inr st')"
  shows "set (universalActionsWithoutConditions st') =
           set (universalActionsWithoutConditions st)
           \<union> (if conditions (trigger rule) = [] \<and> universalRule env rule
              then {ruleWord env locs ruleIndex rule} else {})"
    and "set (universalActionsWithConditions st') =
           set (universalActionsWithConditions st)
           \<union> (if conditions (trigger rule) \<noteq> [] \<and> universalRule env rule
              then {ruleWord env locs ruleIndex rule} else {})"
    and "distinct (universalActionsWithoutConditions st)
           \<Longrightarrow> distinct (universalActionsWithoutConditions st')"
    and "distinct (universalActionsWithConditions st)
           \<Longrightarrow> distinct (universalActionsWithConditions st')"
    and "\<forall>e \<in> set (filtersWithoutConditions st). patternIsOk env e
           \<Longrightarrow> \<forall>e \<in> set (filtersWithoutConditions st'). patternIsOk env e"
    and "\<forall>e \<in> set (filtersWithConditions st). patternIsOk env e
           \<Longrightarrow> \<forall>e \<in> set (filtersWithConditions st'). patternIsOk env e"
proof -
  let ?status = "patternStatus env (urlFilter (trigger rule)) (urlFilterIsCaseSensitive (trigger rule))"
  from assms have i: "ruleIndex < length locs"
    by (auto simp: partitionRule_def Let_def split: if_splits)
  from assms i have ok: "?status = Ok \<or> ?status = MatchesEverything"
    by (cases ?status) (auto simp: partitionRule_def Let_def addPattern_def split: if_splits)
  show "set (universalActionsWithoutConditions st') =
           set (universalActionsWithoutConditions st)
           \<union> (if conditions (trigger rule) = [] \<and> universalRule env rule
              then {ruleWord env locs ruleIndex rule} else {})"
    using assms i ok
    by (cases "conditionType (trigger rule)")
       (auto simp: partitionRule_def Let_def addPattern_def universalRule_def ruleWord_def
          split: if_splits)
  show "set (universalActionsWithConditions st') =
           set (universalActionsWithConditions st)
           \<union> (if conditions (trigger rule) \<noteq> [] \<and> universalRule env rule
              then {ruleWord env locs ruleIndex rule} else {})"
    using assms i ok
    by (cases "conditionType (trigger rule)")
       (auto simp: partitionRule_def Let_def addPattern_def universalRule_def ruleWord_def
          split: if_splits)
  show "distinct (universalActionsWithoutConditions st)
           \<Longrightarrow> distinct (universalActionsWithoutConditions st')"
    using assms i ok
    by (auto simp: partitionRule_def Let_def addPattern_def addToSet_distinct split: if_splits)
  show "distinct (universalActionsWithConditions st)
           \<Longrightarrow> distinct (universalActionsWithConditions st')"
    using assms i ok
    by (auto simp: partitionRule_def Let_def addPattern_def addToSet_distinct split: if_splits)
  show "\<forall>e \<in> set (filtersWithoutConditions st). patternIsOk env e
           \<Longrightarrow> \<forall>e \<in> set (filtersWithoutConditions st'). patternIsOk env e"
    using assms i ok
    by (auto simp: partitionRule_def Let_def addPattern_def split: if_splits)
  show "\<forall>e \<in> set (filtersWithConditions st). patternIsOk env e
           \<Longrightarrow> \<forall>e \<in> set (filtersWithConditions st'). patternIsOk env e"
    using assms i ok
    by (auto simp: partitionRule_def Let_def addPattern_def split: if_splits)
qed

lemma partitionRules_Inr:
  "partitionRules env locs st ruleIndex rules = Inr (Inr p) \<Longrightarrow>
     set (universalActionsWithoutConditions p) =
       set (universalActionsWithoutConditions st)
       \<union> {ruleWord env locs k rule | k rule. (k, rule) \<in> set (enumerate ruleIndex rules)
            \<and> conditions (trigger rule) = [] \<and> universalRule env rule}
   \<and> set (universalActionsWithConditions p) =
       set (universalActionsWithConditions st)
       \<union> {ruleWord env locs k rule | k rule. (k, rule) \<in> set (enumerate ruleIndex rules)
            \<and> conditions (trigger rule) \<noteq> [] \<and> universalRule env rule}
   \<and> (distinct (universalActionsWithoutConditions st) \<longrightarrow> distinct (universalActionsWithoutConditions p))
   \<and> (distinct (universalActionsWithConditions st) \<longrightarrow> distinct (universalActionsWithConditions p))
   \<and> ((\<forall>e \<in> set (filtersWithoutConditions st). patternIsOk env e)
        \<longrightarrow> (\<forall>e \<in> set (filtersWithoutConditions p). patternIsOk env e))
   \<and> ((\<forall>e \<in> set (filtersWithConditions st). patternIsOk env e)
        \<longrightarrow> (\<forall>e \<in> set (filtersWithConditions p). patternIsOk env e))"
proof (induction rules arbitrary: st ruleIndex)
  case Nil
  then show ?case by simp
next
  case (Cons rule rules)
  from Cons.prems obtain st1 where
    1: "partitionRule env locs st ruleIndex rule = Inr (Inr st1)"
    and 2: "partitionRules env locs st1 (Suc ruleIndex) rules = Inr (Inr p)"
    by (auto split: sum.splits)
  note step = partitionRule_Inr [OF 1]
  note rest = Cons.IH [OF 2]
  have a: "set (universalActionsWithoutConditions p) =
       set (universalActionsWithoutConditions st)
       \<union> {ruleWord env locs k r | k r. (k, r) \<in> set (enumerate ruleIndex (rule # rules))
            \<and> conditions (trigger r) = [] \<and> universalRule env r}"
    using rest step(1) by auto
  have b: "set (universalActionsWithConditions p) =
       set (universalActionsWithConditions st)
       \<union> {ruleWord env locs k r | k r. (k, r) \<in> set (enumerate ruleIndex (rule # rules))
            \<and> conditions (trigger r) \<noteq> [] \<and> universalRule env r}"
    using rest step(2) by auto
  from rest step(3-6) a b show ?case by blast
qed



subsection \<open>Pattern errors and the fatal assertion\<close>

lemma addUniversalActionsToDFA_fatal:
  assumes "iteratesAll order" and "65535 \<le> length ua" and "rootInRange dfa"
  shows "addUniversalActionsToDFA order dfa ua = Inl TooManyUniversalActions"
proof -
  from assms(2) have "ua \<noteq> []" by auto
  then show ?thesis
    using assms
    by (simp add: addUniversalActionsToDFA_def Let_def iteratesAll_length rootInRange_def)
qed

lemma lowerDFAToBytecode_fatal:
  assumes "iteratesAll (universalIterationOrder env)" and "65535 \<le> length ua"
    and "rootInRange dfa" and "\<not> firstNFASeen st"
  shows "lowerDFAToBytecode env wr ua st dfa = Inl TooManyUniversalActions"
  using addUniversalActionsToDFA_fatal [OF assms(1,2,3)] assms(4)
  by (simp add: lowerDFAToBytecode_def)

lemma handleNFAs_fatal:
  assumes "iteratesAll (universalIterationOrder env)" and "65535 \<le> length ua"
    and "rootsInRange env"
  shows "\<not> firstNFASeen st \<Longrightarrow> \<forall>dfa \<in> set (smallDFACombiner st). rootInRange dfa
    \<Longrightarrow> handleNFAs env wr ua st nfas = Inl TooManyUniversalActions
        \<or> (\<exists>st'. handleNFAs env wr ua st nfas = Inr st' \<and> \<not> firstNFASeen st'
                \<and> (\<forall>dfa \<in> set (smallDFACombiner st'). rootInRange dfa))"
proof (induction nfas arbitrary: st)
  case Nil
  then show ?case by simp
next
  case (Cons nfa nfas)
  from assms(3) have c: "rootInRange (convert env nfa)"
    and m: "rootInRange (minimize env (convert env nfa))"
    by (simp_all add: rootsInRange_def)
  show ?case
  proof (cases "graphSize env (convert env nfa) < smallDFASize")
    case True
    let ?st = "st\<lparr>smallDFACombiner := smallDFACombiner st @ [convert env nfa]\<rparr>"
    from Cons.prems c have "\<not> firstNFASeen ?st" "\<forall>dfa \<in> set (smallDFACombiner ?st). rootInRange dfa"
      by simp_all
    from Cons.IH [OF this] True show ?thesis by (simp add: Let_def)
  next
    case False
    from lowerDFAToBytecode_fatal [OF assms(1,2) m Cons.prems(1)] False
    show ?thesis by (simp add: Let_def)
  qed
qed

lemma lowerDFAs_fatal:
  assumes "iteratesAll (universalIterationOrder env)" and "65535 \<le> length ua"
    and "\<not> firstNFASeen st" and "\<forall>dfa \<in> set dfas. rootInRange dfa"
  shows "lowerDFAs env wr ua st dfas = Inl TooManyUniversalActions
       \<or> lowerDFAs env wr ua st dfas = Inr st"
proof (cases dfas)
  case Nil
  then show ?thesis by simp
next
  case (Cons dfa dfas')
  with assms(4) have "rootInRange dfa" by simp
  from lowerDFAToBytecode_fatal [OF assms(1,2) this assms(3)] Cons show ?thesis by simp
qed

lemma compileFilters_fatal:
  assumes "iteratesAll (universalIterationOrder env)" and "65535 \<le> length ua"
    and "rootsInRange env"
  shows "compileFilters env wr ua filters calls = Inl TooManyUniversalActions"
proof -
  let ?st = "\<lparr>client = calls, firstNFASeen = False, smallDFACombiner = ([] :: 'c DFA list)\<rparr>"
  have s: "\<not> firstNFASeen ?st" "\<forall>dfa \<in> set (smallDFACombiner ?st). rootInRange dfa" by simp_all
  from assms(3) have e: "rootInRange (emptyDFA env)" by (simp add: rootsInRange_def)
  note d = addUniversalActionsToDFA_fatal [OF assms(1,2) e]
  from handleNFAs_fatal [OF assms s, of wr "processNFAs env filters maxNFASize"]
  show ?thesis
  proof
    assume "handleNFAs env wr ua ?st (processNFAs env filters maxNFASize) = Inl TooManyUniversalActions"
    then show ?thesis by (simp add: compileFilters_def)
  next
    assume "\<exists>st'. handleNFAs env wr ua ?st (processNFAs env filters maxNFASize) = Inr st'
              \<and> \<not> firstNFASeen st' \<and> (\<forall>dfa \<in> set (smallDFACombiner st'). rootInRange dfa)"
    then obtain st1 where
      h: "handleNFAs env wr ua ?st (processNFAs env filters maxNFASize) = Inr st1"
      and n: "\<not> firstNFASeen st1" and v: "\<forall>dfa \<in> set (smallDFACombiner st1). rootInRange dfa"
      by blast
    from assms(3) v
    have "\<forall>dfa \<in> set (combineDFAs env (smallDFACombiner st1) smallDFASize). rootInRange dfa"
      by (simp add: rootsInRange_def)
    from lowerDFAs_fatal [OF assms(1,2) n this, of wr]
    show ?thesis
    proof
      assume "lowerDFAs env wr ua st1 (combineDFAs env (smallDFACombiner st1) smallDFASize)
                = Inl TooManyUniversalActions"
      with h show ?thesis by (simp add: compileFilters_def)
    next
      assume "lowerDFAs env wr ua st1 (combineDFAs env (smallDFACombiner st1) smallDFASize) = Inr st1"
      with h n d show ?thesis by (simp add: compileFilters_def)
    qed
  qed
qed

lemma set_universalWords:
  "set (universalWords env locs rules c) =
     {ruleWord env locs k rule | k rule. (k, rule) \<in> set (enumerate 0 rules)
        \<and> (conditions (trigger rule) \<noteq> []) = c \<and> universalRule env rule}"
  unfolding universalWords_def by force

lemma partitionRules_universalWords:
  assumes "partitionRules env locs initialPartition 0 rules = Inr (Inr p)"
  shows "length (universalActionsWithoutConditions p) = length (universalWords env locs rules False)"
    and "length (universalActionsWithConditions p) = length (universalWords env locs rules True)"
proof -
  from partitionRules_Inr [OF assms] have
    a: "set (universalActionsWithoutConditions p) = set (universalWords env locs rules False)"
    and b: "set (universalActionsWithConditions p) = set (universalWords env locs rules True)"
    and d1: "distinct (universalActionsWithoutConditions p)"
    and d2: "distinct (universalActionsWithConditions p)"
    by (simp_all add: initialPartition_def set_universalWords)
  have e: "distinct (universalWords env locs rules c)" for c
    by (simp add: universalWords_def)
  from distinct_card [OF d1] distinct_card [OF e [of False]] a
  show "length (universalActionsWithoutConditions p) = length (universalWords env locs rules False)"
    by simp
  from distinct_card [OF d2] distinct_card [OF e [of True]] b
  show "length (universalActionsWithConditions p) = length (universalWords env locs rules True)"
    by simp
qed

lemma compileRuleList_passes:
  assumes "parseRuleList env ruleJSON = Inr rules"
    and "serializeActions (typeByte env) (pendingIterationOrder env) rules = Inr (locs, acts)"
    and "\<forall>r \<in> set rules. \<not> failsToParse env r"
    and "iteratesAll (universalIterationOrder env)" and "rootsInRange env"
  shows "length (universalWords env locs rules False) < 65535
           \<Longrightarrow> length (universalWords env locs rules True) < 65535
           \<Longrightarrow> \<exists>calls. compileRuleList env ruleJSON = Inr (calls @ [Finalize], None)
                   \<and> Finalize \<notin> set calls"
    and "\<not> (length (universalWords env locs rules False) < 65535
            \<and> length (universalWords env locs rules True) < 65535)
           \<Longrightarrow> compileRuleList env ruleJSON = Inl TooManyUniversalActions"
proof -
  from serializeActions_length [OF assms(2)] have len: "0 + length rules \<le> length locs" by simp
  from partitionRules_passes [OF assms(3) len, of initialPartition] obtain p where
    p: "partitionRules env locs initialPartition 0 rules = Inr (Inr p)" by blast
  note l = partitionRules_universalWords [OF p]
  {
    assume "length (universalWords env locs rules False) < 65535"
      and "length (universalWords env locs rules True) < 65535"
    with l have a': "length (universalActionsWithoutConditions p) < 65535"
      and b': "length (universalActionsWithConditions p) < 65535" by simp_all
    from compileFilters_total [OF assms(4) a' assms(5)] obtain calls1 where
      c1: "compileFilters env WriteFiltersWithoutConditionsBytecode
            (universalActionsWithoutConditions p) (filtersWithoutConditions p) [WriteActions acts] = Inr calls1"
      by blast
    from compileFilters_total [OF assms(4) b' assms(5)] obtain calls2 where
      c2: "compileFilters env WriteFiltersWithConditionsBytecode
            (universalActionsWithConditions p) (filtersWithConditions p) calls1 = Inr calls2"
      by blast
    from compileFilters_Inr [OF c1] obtain bs1 where
      1: "calls1 = [WriteActions acts] @ map WriteFiltersWithoutConditionsBytecode bs1" by blast
    from compileFilters_Inr [OF c2] obtain bs2 where
      2: "calls2 = calls1 @ map WriteFiltersWithConditionsBytecode bs2" by blast
    let ?calls = "calls2 @ compileConditionFilters env (conditionFilters p)"
    have "compileRuleList env ruleJSON = Inr (?calls @ [Finalize], None)"
      using assms(1,2) p c1 c2 by (simp add: compileRuleList_def)
    moreover have "Finalize \<notin> set ?calls"
      using 1 2 by (auto simp: compileConditionFilters_def)
    ultimately show "\<exists>calls. compileRuleList env ruleJSON = Inr (calls @ [Finalize], None)
                      \<and> Finalize \<notin> set calls" by blast
  }
  {
    assume "\<not> (length (universalWords env locs rules False) < 65535
            \<and> length (universalWords env locs rules True) < 65535)"
    with l have big: "65535 \<le> length (universalActionsWithoutConditions p)
        \<or> (length (universalActionsWithoutConditions p) < 65535
            \<and> 65535 \<le> length (universalActionsWithConditions p))"
      by auto
    then show "compileRuleList env ruleJSON = Inl TooManyUniversalActions"
    proof
      assume "65535 \<le> length (universalActionsWithoutConditions p)"
      from compileFilters_fatal [OF assms(4) this assms(5)] assms(1,2) p
      show ?thesis by (simp add: compileRuleList_def)
    next
      assume b: "length (universalActionsWithoutConditions p) < 65535
            \<and> 65535 \<le> length (universalActionsWithConditions p)"
      then have a': "length (universalActionsWithoutConditions p) < 65535"
        and b': "65535 \<le> length (universalActionsWithConditions p)" by simp_all
      from compileFilters_total [OF assms(4) a' assms(5)] obtain calls1 where
        c1: "compileFilters env WriteFiltersWithoutConditionsBytecode
              (universalActionsWithoutConditions p) (filtersWithoutConditions p) [WriteActions acts] = Inr calls1"
        by blast
      from compileFilters_fatal [OF assms(4) b' assms(5)] assms(1,2) p c1
      show ?thesis by (simp add: compileRuleList_def)
    qed
  }
qed

lemma compileRuleList_returns:
  assumes "parseRuleList env ruleJSON = Inr rules"
    and "\<forall>r \<in> set rules. \<not> failsToParse env r"
    and "compileRuleList env ruleJSON = Inr (calls, err)"
  shows "err = None \<and> (\<exists>calls'. calls = calls' @ [Finalize] \<and> Finalize \<notin> set calls')"
proof -
  from assms(1,3) obtain locs acts where
    s: "serializeActions (typeByte env) (pendingIterationOrder env) rules = Inr (locs, acts)"
    by (cases "serializeActions (typeByte env) (pendingIterationOrder env) rules")
       (auto simp: compileRuleList_def)
  from serializeActions_length [OF s] have len: "0 + length rules \<le> length locs" by simp
  from partitionRules_passes [OF assms(2) len, of initialPartition] obtain p where
    p: "partitionRules env locs initialPartition 0 rules = Inr (Inr p)" by blast
  from assms(1,3) s p obtain calls1 calls2 where
    c1: "compileFilters env WriteFiltersWithoutConditionsBytecode
            (universalActionsWithoutConditions p) (filtersWithoutConditions p) [WriteActions acts] = Inr calls1"
    and c2: "compileFilters env WriteFiltersWithConditionsBytecode
            (universalActionsWithConditions p) (filtersWithConditions p) calls1 = Inr calls2"
    and c: "calls = (calls2 @ compileConditionFilters env (conditionFilters p)) @ [Finalize]"
    and e: "err = None"
    by (auto simp: compileRuleList_def split: sum.splits)
  from compileFilters_Inr [OF c1] obtain bs1 where
    1: "calls1 = [WriteActions acts] @ map WriteFiltersWithoutConditionsBytecode bs1" by blast
  from compileFilters_Inr [OF c2] obtain bs2 where
    2: "calls2 = calls1 @ map WriteFiltersWithConditionsBytecode bs2" by blast
  have "Finalize \<notin> set (calls2 @ compileConditionFilters env (conditionFilters p))"
    using 1 2 by (auto simp: compileConditionFilters_def)
  with c e show ?thesis by blast
qed

text \<open>
  Claim C9, as the code has it. When the pattern of some rule fails to parse (the parser
  reports a status other than \<open>Ok\<close> and \<open>MatchesEverything\<close>), \<open>compileRuleList\<close>
  returns \<open>JSONInvalidRegex\<close> from the loop over the rules: the sink has received
  \<open>writeActions\<close> and nothing else, so \<open>finalize\<close> is not called. When no rule
  fails, every run of \<open>compileRuleList\<close> that returns, returns the empty error code, and
  \<open>finalize\<close> is then the last call of the sink and occurs once. It does return when
  each of the two streams of filters has fewer than 65535 universal action words; when one
  of them has 65535 or more, the run ends in the fatal assertion of
  \<open>addUniversalActionsToDFA\<close> and nothing is returned. (The hash set iterates over all
  its elements and every DFA has its root among its nodes.)
\<close>

theorem invalid_regex_error:
  assumes "parseRuleList env ruleJSON = Inr rules"
    and "serializeActions (typeByte env) (pendingIterationOrder env) rules = Inr (locs, acts)"
  shows "((\<exists>r \<in> set rules. failsToParse env r) \<longrightarrow>
            compileRuleList env ruleJSON = Inr ([WriteActions acts], Some JSONInvalidRegex))
       \<and> ((\<forall>r \<in> set rules. \<not> failsToParse env r) \<longrightarrow>
            (\<forall>calls err. compileRuleList env ruleJSON = Inr (calls, err) \<longrightarrow>
               err = None \<and> (\<exists>calls'. calls = calls' @ [Finalize] \<and> Finalize \<notin> set calls'))
          \<and> (iteratesAll (universalIterationOrder env) \<longrightarrow> rootsInRange env \<longrightarrow>
               (if length (universalWords env locs rules False) < 65535
                   \<and> length (universalWords env locs rules True) < 65535
                then \<exists>calls. compileRuleList env ruleJSON = Inr (calls @ [Finalize], None)
                       \<and> Finalize \<notin> set calls
                else compileRuleList env ruleJSON = Inl TooManyUniversalActions)))"
proof (rule conjI; intro impI)
  from serializeActions_length [OF assms(2)] have len: "0 + length rules \<le> length locs" by simp
  {
    assume "\<exists>r \<in> set rules. failsToParse env r"
    from partitionRules_fails [OF this len]
    show "compileRuleList env ruleJSON = Inr ([WriteActions acts], Some JSONInvalidRegex)"
      using assms by (simp add: compileRuleList_def)
  }
  {
    assume ok: "\<forall>r \<in> set rules. \<not> failsToParse env r"
    have a: "\<forall>calls err. compileRuleList env ruleJSON = Inr (calls, err) \<longrightarrow>
               err = None \<and> (\<exists>calls'. calls = calls' @ [Finalize] \<and> Finalize \<notin> set calls')"
      using compileRuleList_returns [OF assms(1) ok] by blast
    have b: "iteratesAll (universalIterationOrder env) \<longrightarrow> rootsInRange env \<longrightarrow>
               (if length (universalWords env locs rules False) < 65535
                   \<and> length (universalWords env locs rules True) < 65535
                then \<exists>calls. compileRuleList env ruleJSON = Inr (calls @ [Finalize], None)
                       \<and> Finalize \<notin> set calls
                else compileRuleList env ruleJSON = Inl TooManyUniversalActions)"
    proof (intro impI)
      assume it: "iteratesAll (universalIterationOrder env)" and ro: "rootsInRange env"
      note c = compileRuleList_passes [OF assms ok it ro]
      show "if length (universalWords env locs rules False) < 65535
                   \<and> length (universalWords env locs rules True) < 65535
            then \<exists>calls. compileRuleList env ruleJSON = Inr (calls @ [Finalize], None)
                       \<and> Finalize \<notin> set calls
            else compileRuleList env ruleJSON = Inl TooManyUniversalActions"
      proof (cases "length (universalWords env locs rules False) < 65535
                   \<and> length (universalWords env locs rules True) < 65535")
        case True
        with c(1) show ?thesis by simp
      next
        case False
        with c(2) show ?thesis by simp
      qed
    qed
    from a b
    show "(\<forall>calls err. compileRuleList env ruleJSON = Inr (calls, err) \<longrightarrow>
               err = None \<and> (\<exists>calls'. calls = calls' @ [Finalize] \<and> Finalize \<notin> set calls'))
          \<and> (iteratesAll (universalIterationOrder env) \<longrightarrow> rootsInRange env \<longrightarrow>
               (if length (universalWords env locs rules False) < 65535
                   \<and> length (universalWords env locs rules True) < 65535
                then \<exists>calls. compileRuleList env ruleJSON = Inr (calls @ [Finalize], None)
                       \<and> Finalize \<notin> set calls
                else compileRuleList env ruleJSON = Inl TooManyUniversalActions))"
      by (rule conjI)
  }
qed

text \<open>
  Of three rules the second has a pattern that does not parse: the error code is
  returned after \<open>writeActions\<close>. A single rule whose pattern matches everything
  gives one universal action word, and the compilation runs to \<open>finalize\<close>.
\<close>

theorem invalid_regex_error_witness:
  "parseRuleList exampleCollaborators
      [exampleRule BlockLoad [97] 0 [] [], exampleRule BlockLoad [91] 0 [] [], exampleRule BlockLoad [98] 0 [] []]
     = Inr [exampleRule BlockLoad [97] 0 [] [], exampleRule BlockLoad [91] 0 [] [], exampleRule BlockLoad [98] 0 [] []]
   \<and> serializeActions (typeByte exampleCollaborators) (pendingIterationOrder exampleCollaborators)
        [exampleRule BlockLoad [97] 0 [] [], exampleRule BlockLoad [91] 0 [] [], exampleRule BlockLoad [98] 0 [] []]
     = Inr ([0, 0, 0], [0])
   \<and> failsToParse exampleCollaborators (exampleRule BlockLoad [91] 0 [] [])
   \<and> compileRuleList exampleCollaborators
        [exampleRule BlockLoad [97] 0 [] [], exampleRule BlockLoad [91] 0 [] [], exampleRule BlockLoad [98] 0 [] []]
     = Inr ([WriteActions [0]], Some JSONInvalidRegex)
   \<and> \<not> failsToParse exampleCollaborators (exampleRule BlockLoad [46, 42] 0 [] [])
   \<and> iteratesAll (universalIterationOrder exampleCollaborators)
   \<and> rootsInRange exampleCollaborators
   \<and> universalWords exampleCollaborators [0] [exampleRule BlockLoad [46, 42] 0 [] []] False = [0]
   \<and> universalWords exampleCollaborators [0] [exampleRule BlockLoad [46, 42] 0 [] []] True = []
   \<and> (\<exists>calls. compileRuleList exampleCollaborators [exampleRule BlockLoad [46, 42] 0 [] []]
                 = Inr (calls @ [Finalize], None) \<and> Finalize \<notin> set calls)"
proof -
  let ?a = "exampleRule BlockLoad [97] 0 [] []"
  let ?bad = "exampleRule BlockLoad [91] 0 [] []"
  let ?b = "exampleRule BlockLoad [98] 0 [] []"
  let ?u = "exampleRule BlockLoad [46, 42] 0 [] []"
  have p: "parseRuleList exampleCollaborators [?a, ?bad, ?b] = Inr [?a, ?bad, ?b]"
    by (simp add: exampleCollaborators_def)
  have s: "serializeActions (typeByte exampleCollaborators) (pendingIterationOrder exampleCollaborators)
             [?a, ?bad, ?b] = Inr ([0, 0, 0], [0])"
    by (simp add: example_defs serializer_defs)
  have f: "failsToParse exampleCollaborators ?bad"
    by (simp add: failsToParse_def example_defs)
  from f have "\<exists>r \<in> set [?a, ?bad, ?b]. failsToParse exampleCollaborators r" by simp
  with invalid_regex_error [OF p s]
  have c: "compileRuleList exampleCollaborators [?a, ?bad, ?b] = Inr ([WriteActions [0]], Some JSONInvalidRegex)"
    by blast
  have p': "parseRuleList exampleCollaborators [?u] = Inr [?u]"
    by (simp add: exampleCollaborators_def)
  have s': "serializeActions (typeByte exampleCollaborators) (pendingIterationOrder exampleCollaborators)
             [?u] = Inr ([0], [0])"
    by (simp add: example_defs serializer_defs)
  have g: "\<not> failsToParse exampleCollaborators ?u"
    by (simp add: failsToParse_def example_defs)
  have i: "iteratesAll (universalIterationOrder exampleCollaborators)"
    by (simp add: exampleCollaborators_def iteratesAll_rev)
  have w1: "universalWords exampleCollaborators [0] [?u] False = [0]"
    by (simp add: universalWords_def universalRule_def ruleWord_def actionLocationAndFlagsWord_def
          example_defs)
  have w2: "universalWords exampleCollaborators [0] [?u] True = []"
    by (simp add: universalWords_def universalRule_def ruleWord_def example_defs)
  from g have "\<forall>r \<in> set [?u]. \<not> failsToParse exampleCollaborators r" by simp
  with invalid_regex_error [OF p' s'] i rootsInRange_example w1 w2
  have d: "\<exists>calls. compileRuleList exampleCollaborators [?u] = Inr (calls @ [Finalize], None)
              \<and> Finalize \<notin> set calls"
    by simp
  from p s f c g i rootsInRange_example w1 w2 d show ?thesis by (intro conjI)
qed

lemma serializeRule_conditionedBlock:
  "serializeRule exampleTypeByte order st conditionedBlock
     = Inr (st\<lparr>ignorePreviousRuleActionsMap := Map.empty,
               actionLocations := actionLocations st @ [length (actions st)],
               actions := actions st @ [0]\<rparr>)"
  by (simp add: serializeRule_def clearMaps_def assignActionLocation_def conditionedBlock_def
        example_defs)

lemma serializeRules_conditionedBlock:
  "\<exists>st'. serializeRules exampleTypeByte order st (replicate n conditionedBlock) = Inr st'
        \<and> actions st' = actions st @ replicate n 0
        \<and> actionLocations st' = actionLocations st @ [length (actions st)..<length (actions st) + n]
        \<and> cssDisplayNoneActionsMap st' = cssDisplayNoneActionsMap st"
proof (induction n arbitrary: st)
  case 0
  show ?case by simp
next
  case (Suc n)
  let ?st = "st\<lparr>ignorePreviousRuleActionsMap := Map.empty,
               actionLocations := actionLocations st @ [length (actions st)],
               actions := actions st @ [0]\<rparr>"
  from Suc [of ?st] obtain st' where
    1: "serializeRules exampleTypeByte order ?st (replicate n conditionedBlock) = Inr st'"
    and 2: "actions st' = actions ?st @ replicate n 0"
    and 3: "actionLocations st' = actionLocations ?st @ [length (actions ?st)..<length (actions ?st) + n]"
    and 4: "cssDisplayNoneActionsMap st' = cssDisplayNoneActionsMap ?st"
    by blast
  from 1 have "serializeRules exampleTypeByte order st (replicate (Suc n) conditionedBlock) = Inr st'"
    by (simp add: serializeRule_conditionedBlock)
  moreover from 2 have "actions st' = actions st @ replicate (Suc n) 0"
    by (simp add: replicate_app_Cons_same)
  moreover from 3 have "actionLocations st' = actionLocations st
      @ [length (actions st)..<length (actions st) + Suc n]"
    by (simp add: upt_conv_Cons)
  moreover from 4 have "cssDisplayNoneActionsMap st' = cssDisplayNoneActionsMap st" by simp
  ultimately show ?case by blast
qed

lemma serializeActions_conditionedBlock:
  "serializeActions exampleTypeByte rev (replicate n conditionedBlock) = Inr ([0..<n], replicate n 0)"
proof -
  from serializeRules_conditionedBlock [of rev initialState n] obtain st' where
    "serializeRules exampleTypeByte rev initialState (replicate n conditionedBlock) = Inr st'"
    "actions st' = replicate n 0" "actionLocations st' = [0..<n]" "cssDisplayNoneActionsMap st' = []"
    by (auto simp: initialState_def)
  then show ?thesis
    by (simp add: serializeActions_def resolvePendingDisplayNoneActions_def)
qed

lemma low_bits:
  "take_bit 32 (actionLocationAndFlagsWord fl n OR 140737488355328) = (ucast (of_nat n :: 32 word) :: 64 word)"
  unfolding actionLocationAndFlagsWord_def
  by (rule bit_word_eqI) (auto simp add: bit_simps)

lemma low_bits_unat:
  assumes "n < 4294967296"
  shows "unat (take_bit 32 (actionLocationAndFlagsWord fl n OR 140737488355328)) = n"
  using assms
  by (simp only: low_bits) (simp add: unsigned_ucast_eq unat_of_nat take_bit_nat_eq_self)

lemma ruleWord_conditionedBlock:
  "ruleWord exampleCollaborators locs k conditionedBlock
     = actionLocationAndFlagsWord 0 (locs ! k) OR 140737488355328"
  by (simp add: ruleWord_def conditionedBlock_def example_defs)

lemma universalWords_conditionedBlock:
  assumes "n \<le> 4294967296"
  shows "length (universalWords exampleCollaborators [0..<n] (replicate n conditionedBlock) True) = n"
proof -
  let ?f = "\<lambda>(k, rule). ruleWord exampleCollaborators [0..<n] k rule"
  let ?P = "\<lambda>(k, rule). (conditions (trigger rule) \<noteq> []) = True \<and> universalRule exampleCollaborators rule"
  let ?xs = "enumerate 0 (replicate n conditionedBlock)"
  have mem: "x \<in> set ?xs \<Longrightarrow> \<exists>k < n. x = (k, conditionedBlock)" for x
    by (cases x) (auto simp: in_set_enumerate_eq)
  have u: "universalRule exampleCollaborators conditionedBlock"
    "conditions (trigger conditionedBlock) \<noteq> []"
    by (simp_all add: universalRule_def conditionedBlock_def example_defs)
  have fi: "filter ?P ?xs = ?xs"
  proof (rule filter_True)
    show "\<forall>x \<in> set ?xs. ?P x" using mem u by fastforce
  qed
  have inj: "inj_on ?f (set ?xs)"
  proof (rule inj_onI)
    fix x y assume "x \<in> set ?xs" "y \<in> set ?xs" and e: "?f x = ?f y"
    with mem obtain k k' where k: "k < n" "x = (k, conditionedBlock)"
      and k': "k' < n" "y = (k', conditionedBlock)" by blast
    from e k k' have "actionLocationAndFlagsWord 0 k OR 140737488355328
        = actionLocationAndFlagsWord 0 k' OR 140737488355328"
      by (simp add: ruleWord_conditionedBlock)
    then have "unat (take_bit 32 (actionLocationAndFlagsWord 0 k OR 140737488355328))
        = unat (take_bit 32 (actionLocationAndFlagsWord 0 k' OR 140737488355328))"
      by (simp only:)
    with k(1) k'(1) assms have "k = k'" by (simp only: low_bits_unat) 
    with k k' show "x = y" by simp
  qed
  have "distinct (map ?f ?xs)"
    by (simp add: distinct_map inj distinct_enumerate del: enumerate_simps)
  then have "length (remdups (map ?f ?xs)) = length ?xs"
    by (simp add: distinct_remdups_id del: enumerate_simps)
  with fi show ?thesis by (simp add: universalWords_def)
qed

lemma compileRuleList_conditionedBlock:
  assumes "65535 \<le> n" and "n \<le> 4294967296"
  shows "compileRuleList exampleCollaborators (replicate n conditionedBlock) = Inl TooManyUniversalActions"
proof -
  have p: "parseRuleList exampleCollaborators (replicate n conditionedBlock)
             = Inr (replicate n conditionedBlock)"
    by (simp add: exampleCollaborators_def)
  have s: "serializeActions (typeByte exampleCollaborators) (pendingIterationOrder exampleCollaborators)
             (replicate n conditionedBlock) = Inr ([0..<n], replicate n 0)"
    using serializeActions_conditionedBlock [of n] by (simp add: exampleCollaborators_def)
  have ok: "\<forall>r \<in> set (replicate n conditionedBlock). \<not> failsToParse exampleCollaborators r"
    by (simp add: failsToParse_def conditionedBlock_def example_defs)
  have i: "iteratesAll (universalIterationOrder exampleCollaborators)"
    by (simp add: exampleCollaborators_def iteratesAll_rev)
  from universalWords_conditionedBlock [OF assms(2)] assms(1)
  have "\<not> (length (universalWords exampleCollaborators [0..<n] (replicate n conditionedBlock) False) < 65535
          \<and> length (universalWords exampleCollaborators [0..<n] (replicate n conditionedBlock) True) < 65535)"
    by simp
  from compileRuleList_passes(2) [OF p s ok i rootsInRange_example this] show ?thesis .
qed

lemma failsToParse_conditionedBlock:
  "filter (failsToParse exampleCollaborators) (replicate n conditionedBlock) = []"
  by (simp add: failsToParse_def conditionedBlock_def example_defs)

text \<open>
  Claim C9 as stated fails: of 65535 copies of one rule with a domain and the pattern
  \<open>.*\<close> none fails to parse, each has an action location of its own, and so the
  stream of filters with conditions has 65535 universal action words: the compilation
  ends in the fatal assertion, without an error code and without \<open>finalize\<close>.
\<close>

theorem too_many_universal_rules_counterexample:
  "filter (failsToParse exampleCollaborators) (replicate 65535 conditionedBlock) = []
   \<and> compileRuleList exampleCollaborators (replicate 65535 conditionedBlock)
       = Inl TooManyUniversalActions"
proof -
  have a: "(65535 :: nat) \<le> 65535" by simp
  have b: "(65535 :: nat) \<le> 4294967296" by simp
  from failsToParse_conditionedBlock [of 65535] compileRuleList_conditionedBlock [OF a b]
  show ?thesis by (rule conjI)
qed

end
